theory Spec2Isabelle
  imports Main "HOL-Library.Sublist" "HOL-Library.Multiset"
begin

section \<open>Common data model (src/core/types.ts)\<close>

text \<open>
  The TypeScript interfaces of \<^verbatim>\<open>types.ts\<close> as records and datatypes. An optional
  field \<^verbatim>\<open>f?: T\<close> is a \<open>T option\<close>. Wall-clock fields (\<^verbatim>\<open>timestamp\<close>, \<^verbatim>\<open>duration\<close>,
  \<^verbatim>\<open>startTime\<close>, \<^verbatim>\<open>endTime\<close>) are left out: they are read from \<^verbatim>\<open>Date.now()\<close> and no
  control flow depends on them.
\<close>

datatype ViewportName = Mobile | Tablet | Desktop

datatype IssueSeverity = Critical | Serious | Moderate | Minor

datatype IssueType =
  Accessibility | Responsive | Console | Network | Database | Api | Service | Functional

text \<open>
  A thrown JavaScript value: an \<^verbatim>\<open>Error\<close> object with its \<^verbatim>\<open>name\<close> and \<^verbatim>\<open>message\<close>, or any
  other value (for which \<^verbatim>\<open>error instanceof Error\<close> is false).
\<close>

datatype exn = JSError (err_name: string) (err_message: string) | NotAnError

text \<open>The \<^verbatim>\<open>details\<close> object of an issue, for the two shapes the sources build.\<close>

datatype IssueDetails =
  LinkDetails (d_href: string) (d_linkText: string) (d_status: "nat option")
    (d_error: "string option") (d_isExternal: bool) (d_redirectChain: "string list")
  | ConsoleDetails (d_message: string) (d_url: string)

record Issue =
  issue_type :: IssueType
  severity :: IssueSeverity
  rule :: string
  description :: string
  issue_viewport :: "ViewportName option"
  elements :: "string list option"
  helpUrl :: "string option"
  details :: "IssueDetails option"

record ValidatorResult =
  validator :: string
  issues :: "Issue list"

subsection \<open>Control flow\<close>

text \<open>
  A function that awaits or that changes objects is a function from the state to a result and
  the next state; the result is the value it returns or resolves to (\<open>Inr\<close>) or the value
  it throws or rejects with (\<open>Inl\<close>). What was written to the state before a raise stays
  written.
\<close>

type_synonym ('s, 'a) prog = "'s \<Rightarrow> (exn + 'a) \<times> 's"

definition ret :: "'a \<Rightarrow> ('s, 'a) prog" where
  "ret a s = (Inr a, s)"

definition raise :: "exn \<Rightarrow> ('s, 'a) prog" where
  "raise e s = (Inl e, s)"

definition andThen :: "('s, 'a) prog \<Rightarrow> ('a \<Rightarrow> ('s, 'b) prog) \<Rightarrow> ('s, 'b) prog" where
  "andThen m f s = (case m s of (Inl e, s') \<Rightarrow> (Inl e, s') | (Inr a, s') \<Rightarrow> f a s')"

text \<open>\<^verbatim>\<open>try { m } catch (e) { h e }\<close>\<close>

definition tryCatch :: "('s, 'a) prog \<Rightarrow> (exn \<Rightarrow> ('s, 'a) prog) \<Rightarrow> ('s, 'a) prog" where
  "tryCatch m h s = (case m s of (Inl e, s') \<Rightarrow> h e s' | (Inr a, s') \<Rightarrow> (Inr a, s'))"

text \<open>\<^verbatim>\<open>try { m } finally { fin }\<close>: a raise of \<open>fin\<close> replaces the outcome of \<open>m\<close>.\<close>

definition tryFinally :: "('s, 'a) prog \<Rightarrow> ('s, unit) prog \<Rightarrow> ('s, 'a) prog" where
  "tryFinally m fin s =
     (case m s of
        (r, s') \<Rightarrow> (case fin s' of (Inl e, s'') \<Rightarrow> (Inl e, s'') | (Inr _, s'') \<Rightarrow> (r, s'')))"

text \<open>\<^verbatim>\<open>if (c) { m }\<close>\<close>

definition whenDo :: "bool \<Rightarrow> ('s, unit) prog \<Rightarrow> ('s, unit) prog" where
  "whenDo c m = (if c then m else ret ())"

text \<open>\<^verbatim>\<open>if (x) { f(x) }\<close> for an optional number and an optional string.\<close>

definition whenNum :: "nat option \<Rightarrow> (nat \<Rightarrow> ('s, unit) prog) \<Rightarrow> ('s, unit) prog" where
  "whenNum x f = (case x of None \<Rightarrow> ret () | Some n \<Rightarrow> if n \<noteq> 0 then f n else ret ())"

definition whenStr :: "string option \<Rightarrow> (string \<Rightarrow> ('s, unit) prog) \<Rightarrow> ('s, unit) prog" where
  "whenStr x f = (case x of None \<Rightarrow> ret () | Some v \<Rightarrow> if v \<noteq> [] then f v else ret ())"

definition modify :: "('s \<Rightarrow> 's) \<Rightarrow> ('s, unit) prog" where
  "modify f s = (Inr (), f s)"

subsection \<open>The JavaScript runtime\<close>

text \<open>
  The built-ins the sources call are parameters of the model. \<^verbatim>\<open>new RegExp(source, flags)\<close>
  raises a \<^verbatim>\<open>SyntaxError\<close> when the runtime rejects the source. \<open>RegExp_exec\<close> is the
  runtime's matcher: for a source, flags, a start index and a string it gives the end index
  of the match found from the start index on (for a sticky expression: at the start index),
  or \<open>None\<close>. \<^verbatim>\<open>new URL(href)\<close> raises a \<^verbatim>\<open>TypeError\<close> on an invalid URL and otherwise gives
  the origin and the pathname.
\<close>

record js_runtime =
  RegExp_syntax_ok :: "string \<Rightarrow> string \<Rightarrow> bool"
  RegExp_exec :: "string \<Rightarrow> string \<Rightarrow> nat \<Rightarrow> string \<Rightarrow> nat option"
  URL_new :: "string \<Rightarrow> exn + (string \<times> string)"

text \<open>
  A \<^verbatim>\<open>RegExp\<close> object of a configuration is an object of the heap: it has an identity, a
  source and flags, and its \<^verbatim>\<open>lastIndex\<close> is kept in a store, by identity. Every object
  starts with \<^verbatim>\<open>lastIndex\<close> 0.
\<close>

datatype RegExp = RegExp (regexp_id: nat) (source: string) (flags: string)

type_synonym regexp_store = "nat \<Rightarrow> nat"

text \<open>
  \<^verbatim>\<open>RegExp.prototype.test\<close> on an object whose \<^verbatim>\<open>lastIndex\<close> is \<open>i\<close>: the answer and the
  \<^verbatim>\<open>lastIndex\<close> it leaves. Without the \<^verbatim>\<open>g\<close> and the \<^verbatim>\<open>y\<close> flag the search starts at 0 and
  \<^verbatim>\<open>lastIndex\<close> is left alone. With one of them the search starts at \<^verbatim>\<open>lastIndex\<close>, which
  becomes the end of the match, or 0 when there is none.
\<close>

definition stateful :: "string \<Rightarrow> bool" where
  "stateful fl = (CHR ''g'' \<in> set fl \<or> CHR ''y'' \<in> set fl)"

definition RegExp_test :: "js_runtime \<Rightarrow> string \<Rightarrow> string \<Rightarrow> nat \<Rightarrow> string \<Rightarrow> bool \<times> nat" where
  "RegExp_test rt src fl i s =
     (if stateful fl then
        (if i > length s then (False, 0)
         else case RegExp_exec rt src fl i s of None \<Rightarrow> (False, 0) | Some e \<Rightarrow> (True, e))
      else (RegExp_exec rt src fl 0 s \<noteq> None, i))"

text \<open>A configuration value of type \<^verbatim>\<open>string | RegExp\<close>.\<close>

datatype pattern = PString string | PRegExp RegExp

text \<open>
  \<^verbatim>\<open>(typeof p === 'string' ? new RegExp(p, flags) : p).test(s)\<close>. A string is compiled to
  a new object, which is tested once at \<^verbatim>\<open>lastIndex\<close> 0 and dropped; a \<^verbatim>\<open>RegExp\<close> object of
  the configuration is tested at its \<^verbatim>\<open>lastIndex\<close>, which the test may change.
\<close>

definition pattern_test ::
  "js_runtime \<Rightarrow> string \<Rightarrow> pattern \<Rightarrow> string \<Rightarrow> (regexp_store, bool) prog" where
  "pattern_test rt fl p s st =
     (case p of
        PString src \<Rightarrow>
          if RegExp_syntax_ok rt src fl then (Inr (fst (RegExp_test rt src fl 0 s)), st)
          else (Inl (JSError ''SyntaxError'' (''Invalid regular expression: /'' @ src @ ''/'')), st)
      | PRegExp r \<Rightarrow>
          (case RegExp_test rt (source r) (flags r) (st (regexp_id r)) s of
             (b, i) \<Rightarrow> (Inr b, st(regexp_id r := i))))"

text \<open>\<^verbatim>\<open>haystack.includes(needle)\<close> on strings.\<close>

fun str_includes :: "string \<Rightarrow> string \<Rightarrow> bool" where
  "str_includes [] needle = (needle = [])"
| "str_includes (c # cs) needle = (prefix needle (c # cs) \<or> str_includes cs needle)"

text \<open>Decimal rendering of a non-negative integer, as template literals do.\<close>

definition digit_char :: "nat \<Rightarrow> char" where
  "digit_char d =
     (if d = 0 then CHR ''0'' else if d = 1 then CHR ''1'' else if d = 2 then CHR ''2''
      else if d = 3 then CHR ''3'' else if d = 4 then CHR ''4'' else if d = 5 then CHR ''5''
      else if d = 6 then CHR ''6'' else if d = 7 then CHR ''7'' else if d = 8 then CHR ''8''
      else CHR ''9'')"

fun string_of_nat :: "nat \<Rightarrow> string" where
  "string_of_nat n =
     (if n < 10 then [digit_char n] else string_of_nat (n div 10) @ [digit_char (n mod 10)])"

declare string_of_nat.simps [simp del]

section \<open>BrokenLinksValidator\<close>

record BrokenLinksValidatorConfig =
  bl_enabled :: bool
  checkExternal :: bool
  checkInternal :: bool
  bl_timeout :: nat
  bl_ignorePatterns :: "pattern list"
  followRedirects :: bool
  maxRedirects :: nat

record LinkInfo =
  href :: string
  link_text :: string
  link_selector :: string
  isExternal :: bool

record LinkCheckResult =
  link :: LinkInfo
  status :: "nat option"
  error :: "string option"
  redirectChain :: "string list"

text \<open>
  \<^verbatim>\<open>fetch\<close> is the network: given the URL, the method and whether redirects are followed, it
  answers with a response (status, \<^verbatim>\<open>redirected\<close>, final URL) or raises. The abort of the
  request by the timeout timer is the outcome that raises an \<^verbatim>\<open>AbortError\<close>.
\<close>

datatype http_method = HEAD | GET

datatype fetch_outcome =
  Response (resp_status: nat) (resp_redirected: bool) (resp_url: string)
  | FetchThrows exn

type_synonym fetch_fn = "string \<Rightarrow> http_method \<Rightarrow> bool \<Rightarrow> fetch_outcome"

text \<open>The private \<^verbatim>\<open>checkedUrls: Map<string, LinkCheckResult>\<close>, keyed by \<^verbatim>\<open>href\<close>.\<close>

type_synonym link_cache = "string \<rightharpoonup> LinkCheckResult"

definition DEFAULT_BROKEN_LINKS_CONFIG :: BrokenLinksValidatorConfig where
  "DEFAULT_BROKEN_LINKS_CONFIG =
     \<lparr>bl_enabled = True, checkExternal = True, checkInternal = True, bl_timeout = 5000,
      bl_ignorePatterns = [], followRedirects = False, maxRedirects = 5\<rparr>"

text \<open>The loop over \<^verbatim>\<open>ignorePatterns\<close> in \<^verbatim>\<open>shouldCheckLink\<close>: true when a pattern matches.\<close>

fun ignoredByPattern :: "js_runtime \<Rightarrow> pattern list \<Rightarrow> string \<Rightarrow> (regexp_store, bool) prog" where
  "ignoredByPattern rt [] h = ret False"
| "ignoredByPattern rt (p # ps) h =
     andThen (pattern_test rt [] p h) (\<lambda>hit.
       if hit then ret True else ignoredByPattern rt ps h)"

definition shouldCheckLink ::
  "js_runtime \<Rightarrow> BrokenLinksValidatorConfig \<Rightarrow> LinkInfo \<Rightarrow> string \<Rightarrow> (regexp_store, bool) prog" where
  "shouldCheckLink rt cfg lnk currentUrl =
     (if isExternal lnk \<and> \<not> checkExternal cfg then ret False
      else if \<not> isExternal lnk \<and> \<not> checkInternal cfg then ret False
      else
        andThen (ignoredByPattern rt (bl_ignorePatterns cfg) (href lnk)) (\<lambda>ignored.
          if ignored then ret False
          else
            (case URL_new rt (href lnk) of
               Inl _ \<Rightarrow> ret False
             | Inr (linkOrigin, linkPathname) \<Rightarrow>
                 (case URL_new rt currentUrl of
                    Inl _ \<Rightarrow> ret False
                  | Inr (pageOrigin, pagePathname) \<Rightarrow>
                      if linkOrigin = pageOrigin \<and> linkPathname = pagePathname then ret False
                      else ret True))))"

text \<open>\<^verbatim>\<open>links.filter((link) => this.shouldCheckLink(link, page.url()))\<close>; a raise ends it.\<close>

fun filterLinks ::
  "js_runtime \<Rightarrow> BrokenLinksValidatorConfig \<Rightarrow> string \<Rightarrow> LinkInfo list
     \<Rightarrow> (regexp_store, LinkInfo list) prog" where
  "filterLinks rt cfg currentUrl [] = ret []"
| "filterLinks rt cfg currentUrl (l # ls) =
     andThen (shouldCheckLink rt cfg l currentUrl) (\<lambda>keep.
     andThen (filterLinks rt cfg currentUrl ls) (\<lambda>rest.
     ret (if keep then l # rest else rest)))"

text \<open>The \<^verbatim>\<open>catch\<close> clause of \<^verbatim>\<open>checkLink\<close>: the text stored in \<^verbatim>\<open>result.error\<close>.\<close>

definition catchMessage :: "exn \<Rightarrow> string" where
  "catchMessage e =
     (case e of
        JSError n m \<Rightarrow>
          if n = ''AbortError'' then ''Timeout''
          else if str_includes m ''fetch'' then ''Connection failed''
          else m
      | NotAnError \<Rightarrow> ''Unknown error'')"

text \<open>The body of \<^verbatim>\<open>checkLink\<close> after a cache miss, up to the result it caches.\<close>

definition fetchLink :: "BrokenLinksValidatorConfig \<Rightarrow> fetch_fn \<Rightarrow> LinkInfo \<Rightarrow> LinkCheckResult" where
  "fetchLink cfg fetch lnk =
     (let result = \<lparr>link = lnk, status = None, error = None, redirectChain = []\<rparr> in
      case fetch (href lnk) HEAD (followRedirects cfg) of
        FetchThrows e \<Rightarrow> result\<lparr>error := Some (catchMessage e)\<rparr>
      | Response st redirected u \<Rightarrow>
          (let result = result\<lparr>status := Some st\<rparr>;
               result = (if followRedirects cfg \<and> redirected
                         then result\<lparr>redirectChain := redirectChain result @ [u]\<rparr>
                         else result)
           in if st = 405 then
                (case fetch (href lnk) GET (followRedirects cfg) of
                   FetchThrows e \<Rightarrow> result\<lparr>error := Some (catchMessage e)\<rparr>
                 | Response st' _ _ \<Rightarrow> result\<lparr>status := Some st'\<rparr>)
              else result))"

definition checkLink ::
  "BrokenLinksValidatorConfig \<Rightarrow> fetch_fn \<Rightarrow> link_cache \<Rightarrow> LinkInfo
     \<Rightarrow> LinkCheckResult \<times> link_cache" where
  "checkLink cfg fetch cache lnk =
     (case cache (href lnk) of
        Some cached \<Rightarrow> (cached\<lparr>link := lnk\<rparr>, cache)
      | None \<Rightarrow>
          (let result = fetchLink cfg fetch lnk in (result, cache(href lnk \<mapsto> result))))"

text \<open>
  The workers of \<^verbatim>\<open>checkLinksWithConcurrency\<close> take links off one shared queue and push
  each result when its check completes. The model runs the checks one after the other in
  queue order; with real workers the results arrive in completion order, a permutation of
  this list. No worker exists when the concurrency or the queue length is 0.
\<close>

fun checkLinksInOrder ::
  "BrokenLinksValidatorConfig \<Rightarrow> fetch_fn \<Rightarrow> link_cache \<Rightarrow> LinkInfo list
     \<Rightarrow> LinkCheckResult list \<times> link_cache" where
  "checkLinksInOrder cfg fetch cache [] = ([], cache)"
| "checkLinksInOrder cfg fetch cache (l # ls) =
     (case checkLink cfg fetch cache l of
        (r, cache') \<Rightarrow>
          (case checkLinksInOrder cfg fetch cache' ls of
             (rs, cache'') \<Rightarrow> (r # rs, cache'')))"

definition checkLinksWithConcurrency ::
  "BrokenLinksValidatorConfig \<Rightarrow> fetch_fn \<Rightarrow> link_cache \<Rightarrow> LinkInfo list \<Rightarrow> nat
     \<Rightarrow> LinkCheckResult list \<times> link_cache" where
  "checkLinksWithConcurrency cfg fetch cache links concurrency =
     (if min concurrency (length links) = 0 then ([], cache)
      else checkLinksInOrder cfg fetch cache links)"

text \<open>The double-quote character, for the descriptions that quote the link text.\<close>

definition dq :: string where
  "dq = [CHR 0x22]"

definition resultToIssue ::
  "BrokenLinksValidatorConfig \<Rightarrow> LinkCheckResult \<Rightarrow> ViewportName \<Rightarrow> Issue option" where
  "resultToIssue cfg result viewport =
     (let lnk = link result; st = status result; err = error result in
      if (case st of None \<Rightarrow> False | Some s \<Rightarrow> s \<noteq> 0 \<and> s \<ge> 200 \<and> s < 400) then None
      else
        (let (sev, rl, descr) =
           (if (case err of None \<Rightarrow> False | Some e \<Rightarrow> e \<noteq> []) then
              (if err = Some ''Timeout'' then
                 (Moderate, ''link-timeout'',
                  ''Link timed out after '' @ string_of_nat (bl_timeout cfg) @ ''ms: '' @ dq
                    @ link_text lnk @ dq)
               else
                 (Serious, ''link-connection-error'',
                  ''Link connection failed: '' @ dq @ link_text lnk @ dq @ '' ('' @ the err @ '')''))
            else if st = Some 404 then
              (Serious, ''broken-link-404'',
               ''Broken link (404 Not Found): '' @ dq @ link_text lnk @ dq)
            else if (case st of None \<Rightarrow> False | Some s \<Rightarrow> s \<noteq> 0 \<and> s \<ge> 500) then
              (Critical, ''broken-link-server-error'',
               ''Link returns server error ('' @ string_of_nat (the st) @ ''): '' @ dq
                 @ link_text lnk @ dq)
            else if (case st of None \<Rightarrow> False | Some s \<Rightarrow> s \<noteq> 0 \<and> s \<ge> 400) then
              (Moderate, ''broken-link-client-error'',
               ''Link returns error ('' @ string_of_nat (the st) @ ''): '' @ dq
                 @ link_text lnk @ dq)
            else
              (Minor, ''link-unknown-status'',
               ''Link returned unexpected status: '' @ dq @ link_text lnk @ dq))
         in Some \<lparr>issue_type = Network, severity = sev, rule = rl, description = descr,
                  issue_viewport = Some viewport, elements = Some [link_selector lnk],
                  helpUrl = Some ''https://developer.mozilla.org/en-US/docs/Web/HTTP/Status'',
                  details = Some (LinkDetails (href lnk) (link_text lnk) st err
                                    (isExternal lnk) (redirectChain result))\<rparr>))"

text \<open>The loop of \<^verbatim>\<open>validate\<close> that turns results into issues.\<close>

fun resultsToIssues ::
  "BrokenLinksValidatorConfig \<Rightarrow> ViewportName \<Rightarrow> LinkCheckResult list \<Rightarrow> Issue list" where
  "resultsToIssues cfg viewport [] = []"
| "resultsToIssues cfg viewport (r # rs) =
     (case resultToIssue cfg r viewport of
        None \<Rightarrow> resultsToIssues cfg viewport rs
      | Some issue \<Rightarrow> issue # resultsToIssues cfg viewport rs)"

text \<open>
  \<^verbatim>\<open>validate(page, viewport)\<close>. The page enters through what \<^verbatim>\<open>extractLinks(page)\<close> gives
  (the links, or a raise) and through \<^verbatim>\<open>page.url()\<close>. The validator's cache is passed in
  and returned; the state is the \<^verbatim>\<open>lastIndex\<close> of the \<^verbatim>\<open>RegExp\<close> objects among its
  \<^verbatim>\<open>ignorePatterns\<close>.
\<close>

definition validate ::
  "js_runtime \<Rightarrow> BrokenLinksValidatorConfig \<Rightarrow> fetch_fn \<Rightarrow> link_cache \<Rightarrow> exn + LinkInfo list
     \<Rightarrow> string \<Rightarrow> ViewportName \<Rightarrow> (regexp_store, ValidatorResult \<times> link_cache) prog" where
  "validate rt cfg fetch cache extractLinks pageUrl viewport =
     (if \<not> bl_enabled cfg then ret (\<lparr>validator = ''brokenLinks'', issues = []\<rparr>, cache)
      else case extractLinks of
          Inl e \<Rightarrow> raise e
        | Inr links \<Rightarrow>
            andThen (filterLinks rt cfg pageUrl links) (\<lambda>linksToCheck.
              case checkLinksWithConcurrency cfg fetch cache linksToCheck 5 of
                (results, cache') \<Rightarrow>
                  ret (\<lparr>validator = ''brokenLinks'',
                        issues = resultsToIssues cfg viewport results\<rparr>, cache')))"

section \<open>Explorer: data\<close>

datatype ActionType = Click | Fill | Select | Check | Uncheck | Keypress | Upload | Hover

text \<open>
  An \<^verbatim>\<open>Action\<close>. A \<^verbatim>\<open>DiscoveredAction\<close> adds \<^verbatim>\<open>visible\<close>, \<^verbatim>\<open>enabled\<close> and \<^verbatim>\<open>zIndex\<close>, which
  the Explorer never reads; \<^verbatim>\<open>tagName\<close> and \<^verbatim>\<open>boundingBox\<close> are not read either.
\<close>

record Action =
  action_type :: ActionType
  selector :: string
  label :: string
  action_value :: "string option"
  role :: "string option"
  destructive :: "bool option"

record AppState =
  state_id :: string
  state_url :: string
  title :: string
  domFingerprint :: string
  state_viewport :: ViewportName
  screenshot :: "string option"

datatype VerificationType = VDatabase | VApi | VUi | VService

record VerificationResult =
  passed :: bool
  message :: string
  verification_type :: VerificationType
  expected :: "string option"
  actual :: "string option"

text \<open>The \<^verbatim>\<open>custom\<close> matcher is a field of the interface that \<^verbatim>\<open>findMatchingSchema\<close> never reads.\<close>

record ActionMatcher =
  m_selector :: "string option"
  m_text :: "pattern option"
  m_role :: "string option"
  m_context :: "pattern option"
  m_custom :: "(Action \<Rightarrow> string \<Rightarrow> bool) option"

record SetupStep =
  step_fill :: "string option"
  step_click :: "string option"
  step_select :: "string option"
  step_value :: "string option"
  step_waitFor :: "string option"
  step_delay :: "nat option"
  optional :: "bool option"

record DatabaseExpectation =
  db_table :: string
  db_change :: string
  db_where :: "(string \<times> string) list option"

record ApiExpectation =
  api_endpoint :: pattern
  api_method :: "string option"

record UiExpectation =
  ui_visible :: "string list option"
  ui_hidden :: "string list option"
  ui_text :: "(string \<times> pattern) list option"
  ui_url :: "pattern option"
  ui_title :: "pattern option"

record ServiceExpectation =
  svc_adapter :: string
  svc_action :: string
  svc_expects :: "(string \<times> string) list"

record ActionExpectation =
  database :: "DatabaseExpectation option"
  api :: "ApiExpectation option"
  ui :: "UiExpectation option"
  service :: "ServiceExpectation option"

text \<open>An \<^verbatim>\<open>ActionSchema\<close>; its \<^verbatim>\<open>followUp\<close> and \<^verbatim>\<open>destructive\<close> are not read by the Explorer.\<close>

record ActionSchema =
  match :: ActionMatcher
  setup_steps :: "SetupStep list option"
  expects :: "ActionExpectation list option"
  schema_description :: "string option"

record StateTransition =
  fromState :: string
  toState :: string
  transition_action :: Action
  transition_viewport :: ViewportName
  verifications :: "VerificationResult list"

record StateNode =
  node_state :: AppState
  node_issues :: "Issue list"
  transitions :: "StateTransition list"

text \<open>
  \<^verbatim>\<open>states: Map<string, StateNode>\<close> is an association list in insertion order, as a
  JavaScript \<^verbatim>\<open>Map\<close> iterates; \<^verbatim>\<open>set\<close> replaces the value of a present key in place and
  appends an absent one; \<^verbatim>\<open>size\<close> is the length.
\<close>

type_synonym 'v js_map = "(string \<times> 'v) list"

fun map_set :: "string \<Rightarrow> 'v \<Rightarrow> 'v js_map \<Rightarrow> 'v js_map" where
  "map_set k v [] = [(k, v)]"
| "map_set k v ((k', v') # m) = (if k' = k then (k, v) # m else (k', v') # map_set k v m)"

definition map_get :: "'v js_map \<Rightarrow> string \<Rightarrow> 'v option" where
  "map_get m k = map_of m k"

text \<open>The effect of mutating the object that \<^verbatim>\<open>get\<close> returned: the first entry of the key.\<close>

fun map_modify :: "string \<Rightarrow> ('v \<Rightarrow> 'v) \<Rightarrow> 'v js_map \<Rightarrow> 'v js_map" where
  "map_modify k f [] = []"
| "map_modify k f ((k', v') # m) = (if k' = k then (k', f v') # m else (k', v') # map_modify k f m)"

text \<open>\<^verbatim>\<open>visited: Set<string>\<close>, in insertion order.\<close>

type_synonym js_set = "string list"

definition set_has :: "js_set \<Rightarrow> string \<Rightarrow> bool" where
  "set_has xs x = (x \<in> set xs)"

definition set_add :: "string \<Rightarrow> js_set \<Rightarrow> js_set" where
  "set_add x xs = (if set_has xs x then xs else xs @ [x])"

record StateGraph =
  states :: "StateNode js_map"
  startStates :: "string list"

record ExplorationTask =
  task_url :: string
  path :: "Action list"
  depth :: nat
  task_viewport :: ViewportName

text \<open>
  The configuration after \<^verbatim>\<open>mergeConfig\<close>: the sections \<^verbatim>\<open>exploration\<close>, \<^verbatim>\<open>validators\<close> and
  \<^verbatim>\<open>output\<close> exist, their fields may be undefined. The limits are non-negative integers.
\<close>

record ExplorationConfig =
  maxDepth :: "nat option"
  maxStates :: "nat option"
  maxActionsPerState :: "nat option"
  timeout :: "nat option"
  viewports :: "ViewportName list option"
  waitForNetworkIdle :: "bool option"
  actionDelay :: "nat option"

record ConsoleValidatorConfig =
  console_enabled :: bool
  failOnError :: "bool option"
  ignorePatterns :: "pattern list option"

record ValidatorConfig =
  accessibility_enabled :: "bool option"
  responsive_enabled :: "bool option"
  console :: "ConsoleValidatorConfig option"

record OutputConfig =
  output_dir :: "string option"
  screenshots :: "bool option"
  screenshotFormat :: "string option"

record ExplorerConfig =
  baseUrl :: string
  startUrls :: "string list option"
  actionSchemas :: "ActionSchema list option"
  exploration :: ExplorationConfig
  validators :: ValidatorConfig
  output_cfg :: OutputConfig
  ignore :: "string list option"
  supabase_configured :: bool

record ActionResult =
  result_action :: Action
  result_fromState :: string
  result_toState :: string
  success :: bool
  result_verifications :: "VerificationResult list"

record ConsoleError =
  console_message :: string
  console_url :: string

datatype ExplorerEvent =
  EvStart
  | EvStateDiscovered AppState
  | EvStateVisited AppState "Issue list"
  | EvActionStart Action string
  | EvActionComplete ActionResult
  | EvActionError Action exn
  | EvValidationComplete "ValidatorResult list"
  | EvProgress nat nat nat
  | EvComplete
  | EvError exn

text \<open>
  The mutable fields of the \<^verbatim>\<open>Explorer\<close> object, with the browser session it drives
  (\<open>world\<close>, of a type \<open>'w\<close> the model leaves open). \<open>events\<close> is the sequence of events
  passed to \<^verbatim>\<open>emit\<close> (handlers cannot fail: \<^verbatim>\<open>emit\<close> swallows their errors). \<open>has_context\<close>
  and \<open>has_browser\<close> say whether \<^verbatim>\<open>this.context\<close> and \<^verbatim>\<open>this.browser\<close> are non-null.
  \<open>lastIndex\<close> is the \<^verbatim>\<open>lastIndex\<close> of the \<^verbatim>\<open>RegExp\<close> objects of \<^verbatim>\<open>this.config\<close>. \<open>processed\<close>
  is a history variable, not a field of the class: the tasks handed to \<^verbatim>\<open>exploreTask\<close>, in
  order.
\<close>

record 'w Explorer =
  graph :: StateGraph
  visited :: js_set
  queue :: "ExplorationTask list"
  events :: "ExplorerEvent list"
  consoleErrors :: "ConsoleError list"
  has_context :: bool
  has_browser :: bool
  lastIndex :: regexp_store
  processed :: "ExplorationTask list"
  world :: 'w

section \<open>Explorer: control flow and the browser\<close>

text \<open>Running a program of the browser session inside the Explorer.\<close>

definition inWorld :: "('w, 'a) prog \<Rightarrow> ('w Explorer, 'a) prog" where
  "inWorld m s = (case m (world s) of (r, w') \<Rightarrow> (r, s\<lparr>world := w'\<rparr>))"

text \<open>
  Running, inside the Explorer, a program that reads the session and tests \<^verbatim>\<open>RegExp\<close>
  objects of the configuration.
\<close>

definition inRegExps :: "('w \<Rightarrow> (regexp_store, 'a) prog) \<Rightarrow> ('w Explorer, 'a) prog" where
  "inRegExps m s = (case m (world s) (lastIndex s) of (r, st') \<Rightarrow> (r, s\<lparr>lastIndex := st'\<rparr>))"

definition emit :: "ExplorerEvent \<Rightarrow> ('w Explorer, unit) prog" where
  "emit ev = modify (\<lambda>s. s\<lparr>events := events s @ [ev]\<rparr>)"

text \<open>JavaScript truthiness of optional strings, numbers and booleans, and \<^verbatim>\<open>x || d\<close>.\<close>

definition truthy_str :: "string option \<Rightarrow> bool" where
  "truthy_str x = (case x of None \<Rightarrow> False | Some s \<Rightarrow> s \<noteq> [])"

definition truthy_num :: "nat option \<Rightarrow> bool" where
  "truthy_num x = (case x of None \<Rightarrow> False | Some n \<Rightarrow> n \<noteq> 0)"

definition truthy_bool :: "bool option \<Rightarrow> bool" where
  "truthy_bool x = (x = Some True)"

definition truthy_pattern :: "pattern option \<Rightarrow> bool" where
  "truthy_pattern x = (case x of None \<Rightarrow> False | Some (PString s) \<Rightarrow> s \<noteq> [] | Some (PRegExp r) \<Rightarrow> True)"

definition num_or :: "nat option \<Rightarrow> nat \<Rightarrow> nat" where
  "num_or x d = (if truthy_num x then the x else d)"

definition str_or :: "string option \<Rightarrow> string \<Rightarrow> string" where
  "str_or x d = (if truthy_str x then the x else d)"

text \<open>
  The calls on the browser, the page and its locators whose result the Explorer does not
  use: each may change the session and may raise.
\<close>

datatype waitUntil = NetworkIdle | Load

datatype page_call =
  Launch
  | NewContext
  | ConnectSupabase
  | DisconnectAll
  | ContextClose
  | BrowserClose
  | NewPage
  | SetViewportSize nat nat
  | Goto string "nat option" waitUntil
  | WaitForTimeout nat
  | WaitForSelector string nat
  | WaitForLoadState
  | PageClick string nat
  | PageFill string string nat
  | PageSelectOption string string nat
  | Screenshot string
  | PageClose
  | LocatorWaitForVisible string nat
  | LocatorClick string nat
  | LocatorFill string string nat
  | LocatorSelectOption string string nat
  | LocatorCheck string nat
  | LocatorUncheck string nat
  | LocatorHover string nat
  | LocatorPress string string nat

text \<open>The argument of an adapter's \<^verbatim>\<open>verify\<close>.\<close>

datatype verify_arg = DatabaseArg DatabaseExpectation | ServiceArg "(string \<times> string) list"

text \<open>
  Everything outside \<^verbatim>\<open>Explorer.ts\<close> that it calls, as functions on the session: Playwright,
  \<^verbatim>\<open>StateManager.captureState\<close>, \<^verbatim>\<open>ActionDiscovery\<close>, the adapter registry and its adapters,
  the two page validators, and the generators of \<^verbatim>\<open>config.testData\<close> behind
  \<^verbatim>\<open>resolveTestData\<close>. \<open>poll_console\<close> hands over the console errors the session's listener
  has pushed onto \<^verbatim>\<open>this.consoleErrors\<close> since the last poll; the model polls where the
  array is read. \<open>isVisible\<close>, \<open>page_url\<close> and an adapter's \<open>verify\<close> read the session and
  leave it as it is.
\<close>

record 'w driver =
  page_op :: "page_call \<Rightarrow> ('w, unit) prog"
  captureState :: "ViewportName \<Rightarrow> ('w, AppState) prog"
  discoverActions :: "string list option \<Rightarrow> ('w, Action list) prog"
  prioritizeActions :: "Action list \<Rightarrow> Action list"
  page_url :: "'w \<Rightarrow> string"
  isVisible :: "string \<Rightarrow> 'w \<Rightarrow> exn + bool"
  captureAllStates :: "('w, unit) prog"
  adapter_registered :: "string \<Rightarrow> 'w \<Rightarrow> bool"
  adapter_verify :: "string \<Rightarrow> string \<Rightarrow> verify_arg \<Rightarrow> 'w \<Rightarrow> exn + VerificationResult"
  validate_accessibility :: "ViewportName \<Rightarrow> ('w, ValidatorResult) prog"
  validate_responsive :: "ViewportName \<Rightarrow> ('w, ValidatorResult) prog"
  poll_console :: "'w \<Rightarrow> ConsoleError list \<times> 'w"
  resolveTestData :: "string \<Rightarrow> ('w, string) prog"

section \<open>Explorer: actions, setup, schemas, expectations\<close>

definition executeAction :: "'w driver \<Rightarrow> ExplorerConfig \<Rightarrow> Action \<Rightarrow> ('w, unit) prog" where
  "executeAction drv cfg action =
     (let tmo = num_or (timeout (exploration cfg)) 10000; sel = selector action in
      andThen (page_op drv (LocatorWaitForVisible sel tmo)) (\<lambda>_.
        case action_type action of
          Click \<Rightarrow> page_op drv (LocatorClick sel tmo)
        | Fill \<Rightarrow> page_op drv (LocatorFill sel (str_or (action_value action) []) tmo)
        | Select \<Rightarrow> page_op drv (LocatorSelectOption sel (str_or (action_value action) []) tmo)
        | Check \<Rightarrow> page_op drv (LocatorCheck sel tmo)
        | Uncheck \<Rightarrow> page_op drv (LocatorUncheck sel tmo)
        | Hover \<Rightarrow> page_op drv (LocatorHover sel tmo)
        | Keypress \<Rightarrow> page_op drv (LocatorPress sel (str_or (action_value action) ''Enter'') tmo)
        | Upload \<Rightarrow> page_op drv (LocatorClick sel tmo)))"

text \<open>\<^verbatim>\<open>replayPath\<close>: the first action that fails ends the replay, silently.\<close>

fun replayPath :: "'w driver \<Rightarrow> ExplorerConfig \<Rightarrow> Action list \<Rightarrow> ('w, unit) prog" where
  "replayPath drv cfg [] = ret ()"
| "replayPath drv cfg (action # rest) =
     (\<lambda>w. case andThen (executeAction drv cfg action) (\<lambda>_. page_op drv (WaitForTimeout 100)) w of
            (Inl e, w') \<Rightarrow> (Inr (), w')
          | (Inr _, w') \<Rightarrow> replayPath drv cfg rest w')"

text \<open>The \<^verbatim>\<open>try\<close> block of \<^verbatim>\<open>executeSetup\<close>, for one step.\<close>

definition setupStep :: "'w driver \<Rightarrow> SetupStep \<Rightarrow> ('w, unit) prog" where
  "setupStep drv step =
     andThen (whenNum (step_delay step) (\<lambda>delay. page_op drv (WaitForTimeout delay))) (\<lambda>_.
     andThen (whenStr (step_waitFor step) (\<lambda>sel. page_op drv (WaitForSelector sel 5000))) (\<lambda>_.
     andThen (whenStr (step_click step) (\<lambda>sel. page_op drv (PageClick sel 5000))) (\<lambda>_.
     andThen (whenStr (step_fill step) (\<lambda>sel.
                andThen (resolveTestData drv (str_or (step_value step) [])) (\<lambda>v.
                  page_op drv (PageFill sel v 5000)))) (\<lambda>_.
     whenStr (step_select step) (\<lambda>sel.
       andThen (resolveTestData drv (str_or (step_value step) [])) (\<lambda>v.
         page_op drv (PageSelectOption sel v 5000)))))))"

fun executeSetup :: "'w driver \<Rightarrow> SetupStep list \<Rightarrow> ('w, unit) prog" where
  "executeSetup drv [] = ret ()"
| "executeSetup drv (step # steps) =
     andThen
       (tryCatch (setupStep drv step)
          (\<lambda>e. if \<not> truthy_bool (optional step) then raise e else ret ()))
       (\<lambda>_. executeSetup drv steps)"

text \<open>The loop of \<^verbatim>\<open>findMatchingSchema\<close>; a recursive call is a \<^verbatim>\<open>continue\<close>.\<close>

fun matchSchemas ::
  "js_runtime \<Rightarrow> Action \<Rightarrow> string \<Rightarrow> ActionSchema list
     \<Rightarrow> (regexp_store, ActionSchema option) prog" where
  "matchSchemas rt action url [] = ret None"
| "matchSchemas rt action url (schema # rest) =
     (let m = match schema in
      if truthy_str (m_selector m) \<and> \<not> str_includes (selector action) (the (m_selector m))
      then matchSchemas rt action url rest
      else
        andThen (if truthy_pattern (m_text m)
                 then pattern_test rt ''i'' (the (m_text m)) (label action) else ret True)
          (\<lambda>textMatches.
            if \<not> textMatches then matchSchemas rt action url rest
            else if truthy_str (m_role m) \<and> role action \<noteq> m_role m
            then matchSchemas rt action url rest
            else
              andThen (if truthy_pattern (m_context m)
                       then pattern_test rt [] (the (m_context m)) url else ret True)
                (\<lambda>contextMatches.
                  if \<not> contextMatches then matchSchemas rt action url rest
                  else ret (Some schema))))"

definition findMatchingSchema ::
  "js_runtime \<Rightarrow> ExplorerConfig \<Rightarrow> Action \<Rightarrow> string
     \<Rightarrow> (regexp_store, ActionSchema option) prog" where
  "findMatchingSchema rt cfg action url =
     (case actionSchemas cfg of
        None \<Rightarrow> ret None
      | Some schemas \<Rightarrow> matchSchemas rt action url schemas)"

text \<open>The body of the loop over \<^verbatim>\<open>ui.visible\<close>: the result pushed for one selector.\<close>

definition checkVisible :: "'w driver \<Rightarrow> 'w \<Rightarrow> string \<Rightarrow> VerificationResult" where
  "checkVisible drv w sel =
     (case isVisible drv sel w of
        Inr vis \<Rightarrow>
          \<lparr>passed = vis,
           message = (if vis then ''Element '' @ sel @ '' is visible''
                      else ''Element '' @ sel @ '' is not visible''),
           verification_type = VUi, expected = Some ''visible'',
           actual = Some (if vis then ''visible'' else ''hidden'')\<rparr>
      | Inl _ \<Rightarrow>
          \<lparr>passed = False, message = ''Element '' @ sel @ '' not found'',
           verification_type = VUi, expected = None, actual = None\<rparr>)"

text \<open>The body of the loop over \<^verbatim>\<open>ui.hidden\<close>.\<close>

definition checkHidden :: "'w driver \<Rightarrow> 'w \<Rightarrow> string \<Rightarrow> VerificationResult" where
  "checkHidden drv w sel =
     (case isVisible drv sel w of
        Inr vis \<Rightarrow>
          \<lparr>passed = \<not> vis,
           message = (if vis then ''Element '' @ sel @ '' is still visible''
                      else ''Element '' @ sel @ '' is hidden''),
           verification_type = VUi, expected = Some ''hidden'',
           actual = Some (if vis then ''visible'' else ''hidden'')\<rparr>
      | Inl _ \<Rightarrow>
          \<lparr>passed = True, message = ''Element '' @ sel @ '' is not present'',
           verification_type = VUi, expected = None, actual = None\<rparr>)"

text \<open>\<^verbatim>\<open>String(p)\<close> for a \<^verbatim>\<open>string | RegExp\<close>.\<close>

definition pattern_toString :: "pattern \<Rightarrow> string" where
  "pattern_toString p =
     (case p of PString s \<Rightarrow> s | PRegExp r \<Rightarrow> ''/'' @ source r @ ''/'' @ flags r)"

text \<open>The result pushed for \<^verbatim>\<open>ui.url\<close>, given the answer of the test.\<close>

definition urlResult :: "pattern \<Rightarrow> string \<Rightarrow> bool \<Rightarrow> VerificationResult" where
  "urlResult p currentUrl matches =
     \<lparr>passed = matches,
      message = (if matches then ''URL matches '' @ pattern_toString p
                 else ''URL '' @ currentUrl @ '' does not match '' @ pattern_toString p),
      verification_type = VUi,
      expected = Some (pattern_toString p),
      actual = Some currentUrl\<rparr>"

definition verifyUiExpectations ::
  "'w driver \<Rightarrow> js_runtime \<Rightarrow> 'w \<Rightarrow> UiExpectation
     \<Rightarrow> (regexp_store, VerificationResult list) prog" where
  "verifyUiExpectations drv rt w u =
     (let results = (case ui_visible u of None \<Rightarrow> [] | Some sels \<Rightarrow> map (checkVisible drv w) sels);
          results = results
            @ (case ui_hidden u of None \<Rightarrow> [] | Some sels \<Rightarrow> map (checkHidden drv w) sels)
      in if truthy_pattern (ui_url u) then
           (let currentUrl = page_url drv w in
            andThen (pattern_test rt [] (the (ui_url u)) currentUrl) (\<lambda>matches.
              ret (results @ [urlResult (the (ui_url u)) currentUrl matches])))
         else ret results)"

text \<open>\<^verbatim>\<open>const result = await adapter.verify(action, arg); results.push(result)\<close>\<close>

definition pushVerify ::
  "'w driver \<Rightarrow> 'w \<Rightarrow> string \<Rightarrow> string \<Rightarrow> verify_arg \<Rightarrow> VerificationResult list
     \<Rightarrow> (regexp_store, VerificationResult list) prog" where
  "pushVerify drv w name act arg results =
     (case adapter_verify drv name act arg w of
        Inl e \<Rightarrow> raise e
      | Inr result \<Rightarrow> ret (results @ [result]))"

text \<open>
  The body of the loop of \<^verbatim>\<open>verifyExpectations\<close>, for one expectation: \<open>results\<close> is the
  array so far, the value is the array after it, or the raise that leaves the function.
\<close>

definition verifyExpectation ::
  "'w driver \<Rightarrow> js_runtime \<Rightarrow> 'w \<Rightarrow> VerificationResult list \<Rightarrow> ActionExpectation
     \<Rightarrow> (regexp_store, VerificationResult list) prog" where
  "verifyExpectation drv rt w results expectation =
     andThen (case database expectation of
                None \<Rightarrow> ret results
              | Some db \<Rightarrow>
                  if adapter_registered drv ''supabase'' w
                  then pushVerify drv w ''supabase'' (db_change db) (DatabaseArg db) results
                  else ret results) (\<lambda>results.
     andThen (case ui expectation of
                None \<Rightarrow> ret results
              | Some u \<Rightarrow>
                  andThen (verifyUiExpectations drv rt w u) (\<lambda>uiResults.
                    ret (results @ uiResults))) (\<lambda>results.
     (let results =
        (case api expectation of
           None \<Rightarrow> results
         | Some _ \<Rightarrow>
             results @ [\<lparr>passed = True, message = ''API verification not yet implemented'',
                          verification_type = VApi, expected = None, actual = None\<rparr>])
      in case service expectation of
           None \<Rightarrow> ret results
         | Some sv \<Rightarrow>
             if adapter_registered drv (svc_adapter sv) w
             then pushVerify drv w (svc_adapter sv) (svc_action sv) (ServiceArg (svc_expects sv))
                    results
             else ret results)))"

fun verifyLoop ::
  "'w driver \<Rightarrow> js_runtime \<Rightarrow> 'w \<Rightarrow> VerificationResult list \<Rightarrow> ActionExpectation list
     \<Rightarrow> (regexp_store, VerificationResult list) prog" where
  "verifyLoop drv rt w results [] = ret results"
| "verifyLoop drv rt w results (expectation # rest) =
     andThen (verifyExpectation drv rt w results expectation) (\<lambda>results'.
       verifyLoop drv rt w results' rest)"

definition verifyExpectations ::
  "'w driver \<Rightarrow> js_runtime \<Rightarrow> 'w \<Rightarrow> ActionExpectation list
     \<Rightarrow> (regexp_store, VerificationResult list) prog" where
  "verifyExpectations drv rt w exps = verifyLoop drv rt w [] exps"

section \<open>Explorer: the crawl\<close>

definition addStateToGraph :: "AppState \<Rightarrow> Issue list \<Rightarrow> ('w Explorer, unit) prog" where
  "addStateToGraph state found =
     modify (\<lambda>s.
       let node = \<lparr>node_state = state, node_issues = found, transitions = []\<rparr>;
           g = (graph s)\<lparr>states := map_set (state_id state) node (states (graph s))\<rparr>
       in s\<lparr>graph := (if length (states g) = 1
                       then g\<lparr>startStates := startStates g @ [state_id state]\<rparr> else g)\<rparr>)"

definition addTransitionToGraph ::
  "string \<Rightarrow> string \<Rightarrow> Action \<Rightarrow> ViewportName \<Rightarrow> VerificationResult list
     \<Rightarrow> ('w Explorer, unit) prog" where
  "addTransitionToGraph fromId toId action viewport verifs =
     modify (\<lambda>s.
       let transition = \<lparr>fromState = fromId, toState = toId, transition_action = action,
                          transition_viewport = viewport, verifications = verifs\<rparr>
       in case map_get (states (graph s)) fromId of
            None \<Rightarrow> s
          | Some node \<Rightarrow>
              s\<lparr>graph := (graph s)\<lparr>states :=
                   map_modify fromId (\<lambda>n. n\<lparr>transitions := transitions n @ [transition]\<rparr>)
                     (states (graph s))\<rparr>\<rparr>)"

text \<open>The loop of \<^verbatim>\<open>runValidators\<close> over the console errors.\<close>

fun consoleIssues ::
  "js_runtime \<Rightarrow> ConsoleValidatorConfig \<Rightarrow> ViewportName \<Rightarrow> ConsoleError list
     \<Rightarrow> (regexp_store, Issue list) prog" where
  "consoleIssues rt ccfg viewport [] = ret []"
| "consoleIssues rt ccfg viewport (err # rest) =
     andThen (ignoredByPattern rt (case ignorePatterns ccfg of None \<Rightarrow> [] | Some ps \<Rightarrow> ps)
                (console_message err)) (\<lambda>shouldIgnore.
     andThen (consoleIssues rt ccfg viewport rest) (\<lambda>others.
     ret (if shouldIgnore then others
          else \<lparr>issue_type = Console,
                severity = (if truthy_bool (failOnError ccfg) then Serious else Moderate),
                rule = ''no-console-errors'',
                description = ''Console error: '' @ take 200 (console_message err),
                issue_viewport = Some viewport, elements = None, helpUrl = None,
                details = Some (ConsoleDetails (console_message err) (console_url err))\<rparr>
               # others)))"

definition runValidators ::
  "'w driver \<Rightarrow> js_runtime \<Rightarrow> ExplorerConfig \<Rightarrow> ViewportName \<Rightarrow> ('w Explorer, Issue list) prog" where
  "runValidators drv rt cfg viewport =
     andThen (if truthy_bool (accessibility_enabled (validators cfg)) then
                andThen (inWorld (validate_accessibility drv viewport)) (\<lambda>result.
                andThen (emit (EvValidationComplete [result])) (\<lambda>_. ret (issues result)))
              else ret []) (\<lambda>found.
     andThen (if truthy_bool (responsive_enabled (validators cfg)) then
                andThen (inWorld (validate_responsive drv viewport)) (\<lambda>result.
                andThen (emit (EvValidationComplete [result])) (\<lambda>_. ret (found @ issues result)))
              else ret found) (\<lambda>found.
     andThen (\<lambda>s. case poll_console drv (world s) of
                     (errs, w') \<Rightarrow>
                       (Inr (), s\<lparr>consoleErrors := consoleErrors s @ errs, world := w'\<rparr>)) (\<lambda>_.
     (\<lambda>s. case console (validators cfg) of
             Some ccfg \<Rightarrow>
               if console_enabled ccfg \<and> consoleErrors s \<noteq> [] then
                 (case consoleIssues rt ccfg viewport (consoleErrors s) (lastIndex s) of
                    (Inl e, st) \<Rightarrow> (Inl e, s\<lparr>lastIndex := st\<rparr>)
                  | (Inr others, st) \<Rightarrow>
                      (Inr (found @ others), s\<lparr>lastIndex := st, consoleErrors := []\<rparr>))
               else (Inr found, s)
           | None \<Rightarrow> (Inr found, s)))))"

text \<open>
  The \<^verbatim>\<open>try\<close> block of \<^verbatim>\<open>exploreAction\<close> up to and including the verification of the
  expectations: it gives the post-action state and the verification results.
\<close>

definition attemptAction ::
  "'w driver \<Rightarrow> js_runtime \<Rightarrow> ExplorerConfig \<Rightarrow> Action \<Rightarrow> ExplorationTask
     \<Rightarrow> ('w Explorer, AppState \<times> VerificationResult list) prog" where
  "attemptAction drv rt cfg action task =
     andThen (inRegExps (\<lambda>w. findMatchingSchema rt cfg action (page_url drv w))) (\<lambda>schema.
     andThen (inWorld (captureAllStates drv)) (\<lambda>_.
     andThen (case schema of
                None \<Rightarrow> ret ()
              | Some sc \<Rightarrow>
                  (case setup_steps sc of
                     None \<Rightarrow> ret ()
                   | Some steps \<Rightarrow> inWorld (executeSetup drv steps))) (\<lambda>_.
     andThen (inWorld (executeAction drv cfg action)) (\<lambda>_.
     andThen (whenDo (truthy_bool (waitForNetworkIdle (exploration cfg)))
                (tryCatch (inWorld (page_op drv WaitForLoadState)) (\<lambda>_. ret ()))) (\<lambda>_.
     andThen (whenNum (actionDelay (exploration cfg))
                (\<lambda>delay. inWorld (page_op drv (WaitForTimeout delay)))) (\<lambda>_.
     andThen (inWorld (captureState drv (task_viewport task))) (\<lambda>toState.
     andThen (case schema of
                None \<Rightarrow> ret []
              | Some sc \<Rightarrow>
                  (case expects sc of
                     None \<Rightarrow> ret []
                   | Some exps \<Rightarrow> inRegExps (\<lambda>w. verifyExpectations drv rt w exps))) (\<lambda>verifs.
     ret (toState, verifs)))))))))"

text \<open>The navigation back to the task's state: \<^verbatim>\<open>page.goto(task.url)\<close>, then the replay.\<close>

definition backtrack :: "'w driver \<Rightarrow> ExplorerConfig \<Rightarrow> ExplorationTask \<Rightarrow> ('w Explorer, unit) prog" where
  "backtrack drv cfg task =
     andThen (inWorld (page_op drv (Goto (task_url task) None Load))) (\<lambda>_.
     inWorld (replayPath drv cfg (path task)))"

text \<open>The rest of the \<^verbatim>\<open>try\<close> block: record the transition, queue the new state, go back.\<close>

definition recordAction ::
  "'w driver \<Rightarrow> ExplorerConfig \<Rightarrow> AppState \<Rightarrow> Action \<Rightarrow> ExplorationTask \<Rightarrow> AppState
     \<Rightarrow> VerificationResult list \<Rightarrow> ('w Explorer, unit) prog" where
  "recordAction drv cfg fromSt action task toSt verifs =
     andThen (addTransitionToGraph (state_id fromSt) (state_id toSt) action (task_viewport task)
                verifs) (\<lambda>_.
     andThen (emit (EvActionComplete
                \<lparr>result_action = action, result_fromState = state_id fromSt,
                 result_toState = state_id toSt, success = True,
                 result_verifications = verifs\<rparr>)) (\<lambda>_.
     andThen (modify (\<lambda>s.
                if \<not> set_has (visited s) (state_id toSt)
                then s\<lparr>queue := queue s @
                       [\<lparr>task_url = page_url drv (world s), path = path task @ [action],
                         depth = depth task + 1, task_viewport = task_viewport task\<rparr>]\<rparr>
                else s)) (\<lambda>_.
     backtrack drv cfg task)))"

definition exploreAction ::
  "'w driver \<Rightarrow> js_runtime \<Rightarrow> ExplorerConfig \<Rightarrow> AppState \<Rightarrow> Action \<Rightarrow> ExplorationTask
     \<Rightarrow> ('w Explorer, unit) prog" where
  "exploreAction drv rt cfg fromSt action task =
     andThen (emit (EvActionStart action (state_id fromSt))) (\<lambda>_.
     tryCatch
       (andThen (attemptAction drv rt cfg action task) (\<lambda>(toSt, verifs).
          recordAction drv cfg fromSt action task toSt verifs))
       (\<lambda>err.
          andThen (emit (EvActionError action err)) (\<lambda>_.
          tryCatch (backtrack drv cfg task) (\<lambda>_. ret ()))))"

text \<open>The loop of \<^verbatim>\<open>exploreTask\<close> over \<^verbatim>\<open>actionsToExplore\<close>.\<close>

fun exploreActions ::
  "'w driver \<Rightarrow> js_runtime \<Rightarrow> ExplorerConfig \<Rightarrow> AppState \<Rightarrow> ExplorationTask \<Rightarrow> Action list
     \<Rightarrow> ('w Explorer, unit) prog" where
  "exploreActions drv rt cfg fromSt task [] = ret ()"
| "exploreActions drv rt cfg fromSt task (action # rest) =
     andThen (exploreAction drv rt cfg fromSt action task) (\<lambda>_.
     exploreActions drv rt cfg fromSt task rest)"

definition DEFAULT_VIEWPORTS :: "ViewportName \<Rightarrow> nat \<times> nat" where
  "DEFAULT_VIEWPORTS v = (case v of Mobile \<Rightarrow> (375, 667) | Tablet \<Rightarrow> (768, 1024) | Desktop \<Rightarrow> (1280, 720))"

text \<open>
  The first awaited calls of the \<^verbatim>\<open>try\<close> block of \<^verbatim>\<open>exploreTask\<close>: set the viewport, go to
  the task's URL, replay its path and capture the state reached.
\<close>

definition navigate :: "'w driver \<Rightarrow> ExplorerConfig \<Rightarrow> ExplorationTask \<Rightarrow> ('w, AppState) prog" where
  "navigate drv cfg task =
     andThen (page_op drv (SetViewportSize (fst (DEFAULT_VIEWPORTS (task_viewport task)))
                             (snd (DEFAULT_VIEWPORTS (task_viewport task))))) (\<lambda>_.
     andThen (page_op drv (Goto (task_url task) (Some (num_or (timeout (exploration cfg)) 10000))
                (if truthy_bool (waitForNetworkIdle (exploration cfg)) then NetworkIdle else Load)))
       (\<lambda>_.
     andThen (replayPath drv cfg (path task)) (\<lambda>_.
     captureState drv (task_viewport task))))"

text \<open>The screenshot step: the state with its \<^verbatim>\<open>screenshot\<close> set when the call succeeds.\<close>

definition takeScreenshot :: "'w driver \<Rightarrow> ExplorerConfig \<Rightarrow> AppState \<Rightarrow> ('w Explorer, AppState) prog" where
  "takeScreenshot drv cfg state =
     (if truthy_bool (screenshots (output_cfg cfg)) then
        (let screenshotPath = str_or (output_dir (output_cfg cfg)) ''.'' @ ''/screenshots/''
               @ state_id state @ ''.'' @ str_or (screenshotFormat (output_cfg cfg)) ''png''
         in (\<lambda>s. case inWorld (page_op drv (Screenshot screenshotPath)) s of
                    (Inl _, s') \<Rightarrow> (Inr state, s')
                  | (Inr _, s') \<Rightarrow> (Inr (state\<lparr>screenshot := Some screenshotPath\<rparr>), s')))
      else ret state)"

text \<open>The \<^verbatim>\<open>try\<close> block of \<^verbatim>\<open>exploreTask\<close> after the check of the visited set.\<close>

definition exploreNewState ::
  "'w driver \<Rightarrow> js_runtime \<Rightarrow> ExplorerConfig \<Rightarrow> ExplorationTask \<Rightarrow> AppState
     \<Rightarrow> ('w Explorer, unit) prog" where
  "exploreNewState drv rt cfg task state =
     andThen (modify (\<lambda>s. s\<lparr>visited := set_add (state_id state) (visited s)\<rparr>)) (\<lambda>_.
     andThen (emit (EvStateDiscovered state)) (\<lambda>_.
     andThen (takeScreenshot drv cfg state) (\<lambda>state.
     andThen (runValidators drv rt cfg (task_viewport task)) (\<lambda>found.
     andThen (addStateToGraph state found) (\<lambda>_.
     andThen (emit (EvStateVisited state found)) (\<lambda>_.
     andThen (inWorld (discoverActions drv (ignore cfg))) (\<lambda>actions.
     exploreActions drv rt cfg state task
       (take (num_or (maxActionsPerState (exploration cfg)) 50)
          (prioritizeActions drv actions)))))))))"

definition exploreTask ::
  "'w driver \<Rightarrow> js_runtime \<Rightarrow> ExplorerConfig \<Rightarrow> ExplorationTask \<Rightarrow> ('w Explorer, unit) prog" where
  "exploreTask drv rt cfg task =
     (\<lambda>s. if \<not> has_context s then (Inr (), s)
          else
            andThen (inWorld (page_op drv NewPage)) (\<lambda>_.
              tryFinally
                (tryCatch
                   (andThen (inWorld (navigate drv cfg task)) (\<lambda>state.
                      (\<lambda>s. if set_has (visited s) (state_id state) then (Inr (), s)
                           else exploreNewState drv rt cfg task state s)))
                   (\<lambda>err. ret ()))
                (inWorld (page_op drv PageClose))) s)"

definition getAllIssues :: "'w Explorer \<Rightarrow> Issue list" where
  "getAllIssues s = concat (map (\<lambda>(k, node). node_issues node) (states (graph s)))"

definition getAllVerifications :: "'w Explorer \<Rightarrow> VerificationResult list" where
  "getAllVerifications s =
     concat (map (\<lambda>(k, node). concat (map verifications (transitions node))) (states (graph s)))"

definition maxDepthLimit :: "ExplorerConfig \<Rightarrow> nat" where
  "maxDepthLimit cfg = num_or (maxDepth (exploration cfg)) 10"

definition maxStatesLimit :: "ExplorerConfig \<Rightarrow> nat" where
  "maxStatesLimit cfg = num_or (maxStates (exploration cfg)) 500"

text \<open>
  One pass through the body of the main loop of \<^verbatim>\<open>explore\<close>, entered with a non-empty
  queue: \<open>Continue\<close> when the loop goes on (after \<^verbatim>\<open>continue\<close>, or at the end of the
  body), \<open>Break\<close> at the \<^verbatim>\<open>break\<close>, \<open>Raised\<close> when \<^verbatim>\<open>exploreTask\<close> rejects.
\<close>

datatype loop_outcome = Continue | Break | Raised exn

definition loopBody ::
  "'w driver \<Rightarrow> js_runtime \<Rightarrow> ExplorerConfig \<Rightarrow> ExplorationTask \<Rightarrow> 'w Explorer
     \<Rightarrow> loop_outcome \<times> 'w Explorer" where
  "loopBody drv rt cfg task s =
     (if depth task > maxDepthLimit cfg then (Continue, s)
      else if length (visited s) \<ge> maxStatesLimit cfg then (Break, s)
      else
        (case exploreTask drv rt cfg task (s\<lparr>processed := processed s @ [task]\<rparr>) of
           (Inl e, s') \<Rightarrow> (Raised e, s')
         | (Inr _, s') \<Rightarrow>
             (Continue,
              snd (emit (EvProgress (length (visited s')) (length (queue s'))
                           (length (getAllIssues s'))) s'))))"

section \<open>Explorer: what a task does to the Explorer's state\<close>

text \<open>
  \<open>keeps I m\<close>: the program \<open>m\<close> leaves a state in \<open>I\<close> when started in one, however it
  ends. \<open>establishes P m Q\<close>: started in \<open>P\<close>, it ends in \<open>Q\<close>. The facts of this section
  give the measure under which the main loop terminates.
\<close>

definition keeps :: "('s \<Rightarrow> bool) \<Rightarrow> ('s, 'a) prog \<Rightarrow> bool" where
  "keeps I m = (\<forall>s. I s \<longrightarrow> I (snd (m s)))"

lemma keepsD: "keeps I m \<Longrightarrow> I s \<Longrightarrow> I (snd (m s))"
  by (simp add: keeps_def)

lemma keeps_ret [intro!]: "keeps I (ret a)"
  by (simp add: keeps_def ret_def)

lemma keeps_raise [intro!]: "keeps I (raise e)"
  by (simp add: keeps_def raise_def)

lemma keeps_andThen [intro!]: "keeps I m \<Longrightarrow> (\<And>a. keeps I (f a)) \<Longrightarrow> keeps I (andThen m f)"
  unfolding keeps_def andThen_def
  by (auto split: prod.splits sum.splits)

lemma keeps_tryCatch [intro!]: "keeps I m \<Longrightarrow> (\<And>e. keeps I (h e)) \<Longrightarrow> keeps I (tryCatch m h)"
  unfolding keeps_def tryCatch_def
  by (auto split: prod.splits sum.splits)

lemma keeps_tryFinally [intro!]: "keeps I m \<Longrightarrow> keeps I fin \<Longrightarrow> keeps I (tryFinally m fin)"
  unfolding keeps_def tryFinally_def
  by (auto split: prod.splits sum.splits)

lemma keeps_whenDo [intro!]: "keeps I m \<Longrightarrow> keeps I (whenDo c m)"
  by (simp add: whenDo_def keeps_ret)

lemma keeps_whenNum [intro!]: "(\<And>n. keeps I (f n)) \<Longrightarrow> keeps I (whenNum x f)"
  by (cases x) (simp_all add: whenNum_def keeps_ret)

lemma keeps_modify: "(\<And>s. I s \<Longrightarrow> I (f s)) \<Longrightarrow> keeps I (modify f)"
  by (simp add: keeps_def modify_def)

lemma keeps_pure [intro!]: "keeps I (\<lambda>s. (f s, s))"
  by (simp add: keeps_def)

lemma keeps_if [intro!]: "keeps I m \<Longrightarrow> keeps I n \<Longrightarrow> keeps I (if c then m else n)"
  by simp

lemma keeps_case_option [intro!]:
  "keeps I m \<Longrightarrow> (\<And>x. keeps I (f x)) \<Longrightarrow> keeps I (case opt of None \<Rightarrow> m | Some x \<Rightarrow> f x)"
  by (cases opt) simp_all

lemma keeps_case_prod [intro!]:
  "(\<And>a b. keeps I (f a b)) \<Longrightarrow> keeps I (case p of (a, b) \<Rightarrow> f a b)"
  by (cases p) simp

text \<open>
  A property of the Explorer that the session does not influence, one that neither the
  session nor the event log influences, and one that the \<^verbatim>\<open>lastIndex\<close> of the \<^verbatim>\<open>RegExp\<close>
  objects does not influence.
\<close>

definition world_free :: "('w Explorer \<Rightarrow> bool) \<Rightarrow> bool" where
  "world_free I = (\<forall>s w. I s \<longrightarrow> I (s\<lparr>world := w\<rparr>))"

definition session_free :: "('w Explorer \<Rightarrow> bool) \<Rightarrow> bool" where
  "session_free I = (\<forall>s w evs. I s \<longrightarrow> I (s\<lparr>world := w\<rparr>) \<and> I (s\<lparr>events := evs\<rparr>))"

definition regexp_free :: "('w Explorer \<Rightarrow> bool) \<Rightarrow> bool" where
  "regexp_free I = (\<forall>s st. I s \<longrightarrow> I (s\<lparr>lastIndex := st\<rparr>))"

lemma session_free_world: "session_free I \<Longrightarrow> world_free I"
  by (simp add: session_free_def world_free_def)

lemma keeps_inRegExps: "regexp_free I \<Longrightarrow> keeps I (inRegExps m)"
  by (auto simp: keeps_def inRegExps_def regexp_free_def split: prod.splits)

lemma keeps_inWorld: "world_free I \<Longrightarrow> keeps I (inWorld m)"
  by (auto simp: keeps_def inWorld_def world_free_def split: prod.splits)

lemma keeps_emit: "session_free I \<Longrightarrow> keeps I (emit ev)"
  by (auto simp: emit_def session_free_def intro!: keeps_modify)

lemma keeps_backtrack: "world_free I \<Longrightarrow> keeps I (backtrack drv cfg task)"
  unfolding backtrack_def by (intro keeps_andThen keeps_inWorld)

lemma keeps_attemptAction:
  "world_free I \<Longrightarrow> regexp_free I \<Longrightarrow> keeps I (attemptAction drv rt cfg action task)"
  unfolding attemptAction_def
  by (intro keeps_andThen keeps_inWorld keeps_inRegExps keeps_case_option keeps_ret keeps_whenDo
      keeps_whenNum keeps_tryCatch)


definition establishes :: "('s \<Rightarrow> bool) \<Rightarrow> ('s, 'a) prog \<Rightarrow> ('s \<Rightarrow> bool) \<Rightarrow> bool" where
  "establishes P m Q = (\<forall>s. P s \<longrightarrow> Q (snd (m s)))"

lemma establishes_andThen:
  assumes "\<And>s. P s \<Longrightarrow> R (snd (m s)) \<and> (\<forall>a. fst (m s) = Inr a \<longrightarrow> G a)"
    and "\<And>s. R s \<Longrightarrow> Q s"
    and "\<And>a. G a \<Longrightarrow> establishes R (f a) Q"
  shows "establishes P (andThen m f) Q"
  unfolding establishes_def andThen_def
proof (intro allI impI)
  fix s assume "P s"
  from assms(1) [OF this] have R: "R (snd (m s))" and G: "\<forall>a. fst (m s) = Inr a \<longrightarrow> G a"
    by simp_all
  show "Q (snd (case m s of (Inl e, s') \<Rightarrow> (Inl e, s') | (Inr a, s') \<Rightarrow> f a s'))"
  proof (cases "m s")
    case (Pair r s')
    show ?thesis
    proof (cases r)
      case (Inl e)
      with Pair R assms(2) show ?thesis by simp
    next
      case (Inr a)
      with Pair G have "G a" by simp
      from assms(3) [OF this] R Pair Inr show ?thesis by (simp add: establishes_def)
    qed
  qed
qed

lemma establishes_seq:
  assumes "establishes P m R" and "\<And>s. R s \<Longrightarrow> Q s" and "\<And>a. establishes R (f a) Q"
  shows "establishes P (andThen m f) Q"
  by (rule establishes_andThen [where G = "\<lambda>_. True" and R = R])
     (use assms in \<open>auto simp: establishes_def\<close>)

subsection \<open>What an action leaves alone\<close>

definition keys :: "'w Explorer \<Rightarrow> string list" where
  "keys s = map fst (states (graph s))"

definition action_frame :: "'w Explorer \<Rightarrow> 'w Explorer \<Rightarrow> bool" where
  "action_frame s0 s =
     (visited s = visited s0 \<and> keys s = keys s0
      \<and> startStates (graph s) = startStates (graph s0) \<and> processed s = processed s0
      \<and> has_context s = has_context s0 \<and> has_browser s = has_browser s0
      \<and> consoleErrors s = consoleErrors s0 \<and> prefix (queue s0) (queue s))"

lemma action_frame_refl: "action_frame s s"
  by (simp add: action_frame_def)

lemma session_free_action_frame: "session_free (action_frame s0)"
  by (simp add: session_free_def action_frame_def keys_def)

lemmas world_free_action_frame = session_free_world [OF session_free_action_frame]

lemma regexp_free_action_frame: "regexp_free (action_frame s0)"
  by (simp add: regexp_free_def action_frame_def keys_def)

lemma map_fst_map_modify: "map fst (map_modify k f m) = map fst m"
  by (induction m) auto

lemma keeps_addTransitionToGraph:
  "keeps (action_frame s0) (addTransitionToGraph a b c d e)"
  unfolding addTransitionToGraph_def
  by (rule keeps_modify)
     (auto simp: action_frame_def keys_def Let_def map_fst_map_modify split: option.splits)

lemma keeps_recordAction:
  "keeps (action_frame s0) (recordAction drv cfg fromSt action task toSt verifs)"
  unfolding recordAction_def
proof (intro keeps_andThen keeps_addTransitionToGraph keeps_emit keeps_backtrack
    session_free_action_frame world_free_action_frame keeps_modify)
  fix s :: "'a Explorer" assume "action_frame s0 s"
  then show "action_frame s0
          (if \<not> set_has (visited s) (state_id toSt)
           then s\<lparr>queue := queue s @
                   [\<lparr>task_url = page_url drv (world s), path = path task @ [action],
                      depth = depth task + 1, task_viewport = task_viewport task\<rparr>]\<rparr>
           else s)"
    by (auto simp: action_frame_def keys_def)
qed

lemma keeps_exploreAction:
  "keeps (action_frame s0) (exploreAction drv rt cfg fromSt action task)"
  unfolding exploreAction_def
  by (intro keeps_andThen keeps_tryCatch keeps_emit keeps_backtrack keeps_attemptAction
      keeps_case_prod keeps_recordAction keeps_ret session_free_action_frame
      world_free_action_frame regexp_free_action_frame)

lemma keeps_exploreActions:
  "keeps (action_frame s0) (exploreActions drv rt cfg fromSt task actions)"
  by (induction actions) (auto intro!: keeps_exploreAction)

text \<open>\<^verbatim>\<open>exploreAction\<close> never rejects.\<close>

lemma exploreAction_total: "\<exists>u. fst (exploreAction drv rt cfg fromSt action task s) = Inr u"
  by (auto simp: exploreAction_def andThen_def tryCatch_def emit_def modify_def ret_def
      split: prod.splits sum.splits)

subsection \<open>What a task changes\<close>

text \<open>
  After the state \<open>sid\<close> was marked visited and before it is added to the graph
  (\<open>marked\<close>), and from then on (\<open>added\<close>), relative to the Explorer \<open>s0\<close> at the start of
  the task.
\<close>

definition marked :: "'w Explorer \<Rightarrow> string \<Rightarrow> 'w Explorer \<Rightarrow> bool" where
  "marked s0 sid s =
     (visited s = visited s0 @ [sid] \<and> graph s = graph s0 \<and> queue s = queue s0
      \<and> processed s = processed s0 \<and> has_context s = has_context s0
      \<and> has_browser s = has_browser s0)"

definition added :: "'w Explorer \<Rightarrow> string \<Rightarrow> 'w Explorer \<Rightarrow> bool" where
  "added s0 sid s =
     (visited s = visited s0 @ [sid] \<and> keys s = set_add sid (keys s0)
      \<and> startStates (graph s) =
          (if length (set_add sid (keys s0)) = 1 then startStates (graph s0) @ [sid]
           else startStates (graph s0))
      \<and> prefix (queue s0) (queue s)
      \<and> processed s = processed s0 \<and> has_context s = has_context s0
      \<and> has_browser s = has_browser s0)"

lemma session_free_marked: "session_free (marked s0 sid)"
  by (simp add: session_free_def marked_def)

lemma session_free_added: "session_free (added s0 sid)"
  by (simp add: session_free_def added_def keys_def)

lemmas world_free_marked = session_free_world [OF session_free_marked]

lemmas world_free_added = session_free_world [OF session_free_added]

lemma map_fst_map_set: "map fst (map_set k v m) = set_add k (map fst m)"
  by (induction m) (force simp: set_add_def set_has_def)+

lemma added_frame: "added s0 sid s \<Longrightarrow> action_frame s s' \<Longrightarrow> added s0 sid s'"
  by (auto simp: added_def action_frame_def)

lemma keeps_added_exploreActions:
  "keeps (added s0 sid) (exploreActions drv rt cfg fromSt task actions)"
  unfolding keeps_def
proof (intro allI impI)
  fix s :: "'a Explorer" assume a: "added s0 sid s"
  have "action_frame s (snd (exploreActions drv rt cfg fromSt task actions s))"
    by (rule keepsD [OF keeps_exploreActions action_frame_refl])
  with a show "added s0 sid (snd (exploreActions drv rt cfg fromSt task actions s))"
    by (rule added_frame)
qed

lemma keeps_marked_runValidators: "keeps (marked s0 sid) (runValidators drv rt cfg vp)"
  unfolding runValidators_def
proof (intro keeps_andThen keeps_if keeps_inWorld keeps_emit keeps_ret session_free_marked
    world_free_marked)
  show "keeps (marked s0 sid)
          (\<lambda>s. case poll_console drv (world s) of
                 (errs, w') \<Rightarrow> (Inr (), s\<lparr>consoleErrors := consoleErrors s @ errs, world := w'\<rparr>))"
    by (auto simp: keeps_def marked_def split: prod.splits)
next
  fix found :: "Issue list"
  show "keeps (marked s0 sid)
          (\<lambda>s. case console (validators cfg) of
                 None \<Rightarrow> (Inr found, s)
               | Some ccfg \<Rightarrow>
                   if console_enabled ccfg \<and> consoleErrors s \<noteq> [] then
                     (case consoleIssues rt ccfg vp (consoleErrors s) (lastIndex s) of
                        (Inl e, st) \<Rightarrow> (Inl e, s\<lparr>lastIndex := st\<rparr>)
                      | (Inr others, st) \<Rightarrow>
                          (Inr (found @ others), s\<lparr>lastIndex := st, consoleErrors := []\<rparr>))
                   else (Inr found, s))"
    by (auto simp: keeps_def marked_def split: option.splits sum.splits prod.splits)
qed

lemma takeScreenshot_result:
  "fst (takeScreenshot drv cfg state s) = Inr st' \<Longrightarrow> state_id st' = state_id state"
  by (auto simp: takeScreenshot_def Let_def ret_def inWorld_def split: if_splits prod.splits sum.splits)

lemma takeScreenshot_state:
  "\<exists>w. snd (takeScreenshot drv cfg state s) = s\<lparr>world := w\<rparr>"
proof (cases "truthy_bool (screenshots (output_cfg cfg))")
  case False
  then show ?thesis
    by (intro exI [of _ "world s"]) (simp add: takeScreenshot_def ret_def)
next
  case True
  obtain r w' where "page_op drv (Screenshot (str_or (output_dir (output_cfg cfg)) ''.''
      @ ''/screenshots/'' @ state_id state @ ''.''
      @ str_or (screenshotFormat (output_cfg cfg)) ''png'')) (world s) = (r, w')"
    by (cases "page_op drv (Screenshot (str_or (output_dir (output_cfg cfg)) ''.''
      @ ''/screenshots/'' @ state_id state @ ''.''
      @ str_or (screenshotFormat (output_cfg cfg)) ''png'')) (world s)")
  with True show ?thesis
    by (cases r) (auto simp: takeScreenshot_def Let_def inWorld_def)
qed

lemma keeps_takeScreenshot:
  assumes sf: "world_free I"
  shows "keeps I (takeScreenshot drv cfg state)"
  unfolding keeps_def
proof (intro allI impI)
  fix s :: "'a Explorer" assume i: "I s"
  from takeScreenshot_state [of drv cfg state s] obtain w where
    "snd (takeScreenshot drv cfg state s) = s\<lparr>world := w\<rparr>" by blast
  with sf i show "I (snd (takeScreenshot drv cfg state s))" by (simp add: world_free_def)
qed

lemma establishes_addStateToGraph:
  assumes "state_id st = sid"
  shows "establishes (marked s0 sid) (addStateToGraph st found) (added s0 sid)"
  unfolding establishes_def
proof (intro allI impI)
  fix s :: "'a Explorer" assume m: "marked s0 sid s"
  let ?node = "\<lparr>node_state = st, node_issues = found, transitions = []\<rparr>"
  let ?sts = "map_set sid ?node (states (graph s0))"
  have g: "graph s = graph s0" using m by (simp add: marked_def)
  have k: "map fst ?sts = set_add sid (map fst (states (graph s0)))"
    by (rule map_fst_map_set)
  have len: "length ?sts = length (set_add sid (map fst (states (graph s0))))"
    by (metis k length_map)
  have res: "snd (addStateToGraph st found s) =
      s\<lparr>graph := (if length ?sts = 1
                    then (graph s0)\<lparr>states := ?sts,
                           startStates := startStates (graph s0) @ [sid]\<rparr>
                    else (graph s0)\<lparr>states := ?sts\<rparr>)\<rparr>"
    by (simp add: addStateToGraph_def modify_def Let_def assms g)
  show "added s0 sid (snd (addStateToGraph st found s))"
    unfolding res using m
    by (simp add: added_def marked_def keys_def k len)
qed

lemma exploreNewState_post:
  assumes "\<not> set_has (visited s0) (state_id state)"
  shows "establishes (\<lambda>s. \<exists>w. s = s0\<lparr>world := w\<rparr>) (exploreNewState drv rt cfg task state)
           (\<lambda>s. marked s0 (state_id state) s \<or> added s0 (state_id state) s)"
proof -
  let ?sid = "state_id state"
  let ?Q = "\<lambda>s. marked s0 ?sid s \<or> added s0 ?sid s"
  have k2: "establishes (added s0 ?sid) m ?Q" if "keeps (added s0 ?sid) m" for m :: "('a Explorer, 'b) prog"
    using that by (simp add: keeps_def establishes_def)
  have tail: "establishes (marked s0 ?sid)
         (andThen (addStateToGraph st found) (\<lambda>_.
          andThen (emit (EvStateVisited st found)) (\<lambda>_.
          andThen (inWorld (discoverActions drv (ignore cfg))) (\<lambda>actions.
          exploreActions drv rt cfg st task
            (take (num_or (maxActionsPerState (exploration cfg)) 50)
               (prioritizeActions drv actions)))))) ?Q"
    if "state_id st = ?sid" for st :: AppState and found
  proof (rule establishes_seq [where R = "added s0 ?sid"])
    show "establishes (marked s0 ?sid) (addStateToGraph st found) (added s0 ?sid)"
      by (rule establishes_addStateToGraph [OF that])
    show "\<And>s. added s0 ?sid s \<Longrightarrow> ?Q s" by simp
    show "\<And>a. establishes (added s0 ?sid)
            (andThen (emit (EvStateVisited st found)) (\<lambda>_.
             andThen (inWorld (discoverActions drv (ignore cfg))) (\<lambda>actions.
             exploreActions drv rt cfg st task
               (take (num_or (maxActionsPerState (exploration cfg)) 50)
                  (prioritizeActions drv actions))))) ?Q"
      by (intro k2 keeps_andThen keeps_emit keeps_inWorld keeps_added_exploreActions
          session_free_added world_free_added)
  qed
  have k1: "establishes (marked s0 ?sid) m (marked s0 ?sid)" if "keeps (marked s0 ?sid) m"
    for m :: "('a Explorer, 'b) prog"
    using that by (simp add: keeps_def establishes_def)
  show ?thesis
    unfolding exploreNewState_def
  proof (rule establishes_seq [where R = "marked s0 ?sid"])
    show "establishes (\<lambda>s. \<exists>w. s = s0\<lparr>world := w\<rparr>)
            (modify (\<lambda>s. s\<lparr>visited := set_add ?sid (visited s)\<rparr>)) (marked s0 ?sid)"
      using assms by (auto simp: establishes_def modify_def marked_def set_add_def)
    show "\<And>s. marked s0 ?sid s \<Longrightarrow> ?Q s" by simp
  next
    fix a :: unit
    show "establishes (marked s0 ?sid)
            (andThen (emit (EvStateDiscovered state)) (\<lambda>_.
             andThen (takeScreenshot drv cfg state) (\<lambda>state.
             andThen (runValidators drv rt cfg (task_viewport task)) (\<lambda>found.
             andThen (addStateToGraph state found) (\<lambda>_.
             andThen (emit (EvStateVisited state found)) (\<lambda>_.
             andThen (inWorld (discoverActions drv (ignore cfg))) (\<lambda>actions.
             exploreActions drv rt cfg state task
               (take (num_or (maxActionsPerState (exploration cfg)) 50)
                  (prioritizeActions drv actions))))))))) ?Q"
    proof (rule establishes_seq [where R = "marked s0 ?sid"])
      show "establishes (marked s0 ?sid) (emit (EvStateDiscovered state)) (marked s0 ?sid)"
        by (intro k1 keeps_emit session_free_marked)
      show "\<And>s. marked s0 ?sid s \<Longrightarrow> ?Q s" by simp
    next
      fix b :: unit
      show "establishes (marked s0 ?sid)
            (andThen (takeScreenshot drv cfg state) (\<lambda>state.
             andThen (runValidators drv rt cfg (task_viewport task)) (\<lambda>found.
             andThen (addStateToGraph state found) (\<lambda>_.
             andThen (emit (EvStateVisited state found)) (\<lambda>_.
             andThen (inWorld (discoverActions drv (ignore cfg))) (\<lambda>actions.
             exploreActions drv rt cfg state task
               (take (num_or (maxActionsPerState (exploration cfg)) 50)
                  (prioritizeActions drv actions)))))))) ?Q"
      proof (rule establishes_andThen [where R = "marked s0 ?sid" and G = "\<lambda>st. state_id st = ?sid"])
        fix s :: "'a Explorer" assume m: "marked s0 ?sid s"
        have "marked s0 ?sid (snd (takeScreenshot drv cfg state s))"
          by (rule keepsD [OF keeps_takeScreenshot [OF world_free_marked] m])
        then show "marked s0 ?sid (snd (takeScreenshot drv cfg state s))
             \<and> (\<forall>a. fst (takeScreenshot drv cfg state s) = Inr a \<longrightarrow> state_id a = ?sid)"
          by (auto dest: takeScreenshot_result)
      next
        show "\<And>s. marked s0 ?sid s \<Longrightarrow> ?Q s" by simp
      next
        fix st :: AppState assume st: "state_id st = ?sid"
        show "establishes (marked s0 ?sid)
            (andThen (runValidators drv rt cfg (task_viewport task)) (\<lambda>found.
             andThen (addStateToGraph st found) (\<lambda>_.
             andThen (emit (EvStateVisited st found)) (\<lambda>_.
             andThen (inWorld (discoverActions drv (ignore cfg))) (\<lambda>actions.
             exploreActions drv rt cfg st task
               (take (num_or (maxActionsPerState (exploration cfg)) 50)
                  (prioritizeActions drv actions))))))) ?Q"
        proof (rule establishes_seq [where R = "marked s0 ?sid"])
          show "establishes (marked s0 ?sid) (runValidators drv rt cfg (task_viewport task))
                  (marked s0 ?sid)"
            by (intro k1 keeps_marked_runValidators)
          show "\<And>s. marked s0 ?sid s \<Longrightarrow> ?Q s" by simp
          show "\<And>found. establishes (marked s0 ?sid)
             (andThen (addStateToGraph st found) (\<lambda>_.
              andThen (emit (EvStateVisited st found)) (\<lambda>_.
              andThen (inWorld (discoverActions drv (ignore cfg))) (\<lambda>actions.
              exploreActions drv rt cfg st task
                (take (num_or (maxActionsPerState (exploration cfg)) 50)
                   (prioritizeActions drv actions)))))) ?Q"
            by (rule tail [OF st])
        qed
      qed
    qed
  qed
qed


lemma establishes_tryCatch:
  assumes "establishes P m R" and "\<And>s. R s \<Longrightarrow> Q s" and "\<And>e. establishes R (h e) Q"
  shows "establishes P (tryCatch m h) Q"
  using assms unfolding establishes_def tryCatch_def
  by (auto split: prod.splits sum.splits)

lemma establishes_tryFinally:
  assumes "establishes P m R" and "establishes R fin Q"
  shows "establishes P (tryFinally m fin) Q"
  using assms unfolding establishes_def tryFinally_def
  by (auto split: prod.splits sum.splits)

definition task_post :: "'w Explorer \<Rightarrow> 'w Explorer \<Rightarrow> bool" where
  "task_post s0 s =
     ((\<exists>w. s = s0\<lparr>world := w\<rparr>)
      \<or> (\<exists>sid. \<not> set_has (visited s0) sid \<and> (marked s0 sid s \<or> added s0 sid s)))"

lemma task_post_world: "task_post s0 s \<Longrightarrow> task_post s0 (s\<lparr>world := w\<rparr>)"
  unfolding task_post_def
  using session_free_marked [of s0] session_free_added [of s0]
  by (auto simp: session_free_def)

lemma establishes_inWorld_only:
  "establishes (\<lambda>s. \<exists>w. s = s0\<lparr>world := w\<rparr>) (inWorld m) (\<lambda>s. \<exists>w. s = s0\<lparr>world := w\<rparr>)"
  by (auto simp: establishes_def inWorld_def split: prod.splits)

lemma exploreTask_post: "task_post s0 (snd (exploreTask drv rt cfg task s0))"
proof (cases "has_context s0")
  case False
  then show ?thesis
    by (auto simp: exploreTask_def task_post_def intro!: exI [of _ "world s0"])
next
  case True
  let ?W = "\<lambda>s. \<exists>w. s = s0\<lparr>world := w\<rparr>"
  let ?TP = "task_post s0"
  have W_TP: "?TP s" if "?W s" for s using that by (auto simp: task_post_def)
  have cond: "establishes ?W (\<lambda>s. if set_has (visited s) (state_id state) then (Inr (), s)
                           else exploreNewState drv rt cfg task state s) ?TP" for state
    unfolding establishes_def
  proof (intro allI impI)
    fix s assume w: "?W s"
    then have v: "visited s = visited s0" by auto
    show "?TP (snd (if set_has (visited s) (state_id state) then (Inr (), s)
                    else exploreNewState drv rt cfg task state s))"
    proof (cases "set_has (visited s) (state_id state)")
      case True
      with w show ?thesis by (simp add: W_TP)
    next
      case False
      with v have n: "\<not> set_has (visited s0) (state_id state)" by simp
      from exploreNewState_post [OF n, of drv rt cfg task] w
      have "marked s0 (state_id state) (snd (exploreNewState drv rt cfg task state s))
          \<or> added s0 (state_id state) (snd (exploreNewState drv rt cfg task state s))"
        unfolding establishes_def by blast
      with n False show ?thesis unfolding task_post_def by auto
    qed
  qed
  have close: "establishes ?TP (inWorld (page_op drv PageClose)) ?TP"
    by (auto simp: establishes_def inWorld_def task_post_world split: prod.splits)
  have body: "establishes ?W
      (tryFinally
         (tryCatch
            (andThen (inWorld (navigate drv cfg task)) (\<lambda>state.
               (\<lambda>s. if set_has (visited s) (state_id state) then (Inr (), s)
                    else exploreNewState drv rt cfg task state s)))
            (\<lambda>err. ret ()))
         (inWorld (page_op drv PageClose))) ?TP"
  proof (rule establishes_tryFinally [OF _ close], rule establishes_tryCatch [where R = ?TP])
    show "establishes ?W (andThen (inWorld (navigate drv cfg task)) (\<lambda>state s.
             if set_has (visited s) (state_id state) then (Inr (), s)
             else exploreNewState drv rt cfg task state s)) ?TP"
    proof (rule establishes_seq [where R = ?W])
      show "establishes ?W (inWorld (navigate drv cfg task)) ?W" by (rule establishes_inWorld_only)
      show "\<And>s. ?W s \<Longrightarrow> ?TP s" by (rule W_TP)
      show "\<And>a. establishes ?W (\<lambda>s. if set_has (visited s) (state_id a) then (Inr (), s)
                           else exploreNewState drv rt cfg task a s) ?TP"
        by (rule cond)
    qed
    show "\<And>s. ?TP s \<Longrightarrow> ?TP s" .
    show "\<And>e. establishes ?TP (ret ()) ?TP" by (simp add: establishes_def ret_def)
  qed
  have all: "establishes (\<lambda>s. s = s0)
      (andThen (inWorld (page_op drv NewPage)) (\<lambda>_.
         tryFinally
           (tryCatch
              (andThen (inWorld (navigate drv cfg task)) (\<lambda>state.
                 (\<lambda>s. if set_has (visited s) (state_id state) then (Inr (), s)
                      else exploreNewState drv rt cfg task state s)))
              (\<lambda>err. ret ()))
           (inWorld (page_op drv PageClose)))) ?TP"
  proof (rule establishes_seq [where R = ?W])
    show "establishes (\<lambda>s. s = s0) (inWorld (page_op drv NewPage)) ?W"
      by (auto simp: establishes_def inWorld_def split: prod.splits)
    show "\<And>s. ?W s \<Longrightarrow> ?TP s" by (rule W_TP)
    show "\<And>a :: unit. establishes ?W
      (tryFinally
         (tryCatch
            (andThen (inWorld (navigate drv cfg task)) (\<lambda>state.
               (\<lambda>s. if set_has (visited s) (state_id state) then (Inr (), s)
                    else exploreNewState drv rt cfg task state s)))
            (\<lambda>err. ret ()))
         (inWorld (page_op drv PageClose))) ?TP"
      by (rule body)
  qed
  then show ?thesis using True by (simp add: establishes_def exploreTask_def)
qed


lemma task_post_visited:
  "task_post s0 s \<Longrightarrow>
     (visited s = visited s0 \<and> queue s = queue s0)
     \<or> length (visited s) = Suc (length (visited s0))"
  by (auto simp: task_post_def marked_def added_def)

lemma loopBody_Continue:
  assumes "loopBody drv rt cfg task s = (Continue, s')"
  shows "(visited s' = visited s \<and> queue s' = queue s)
     \<or> (length (visited s') = Suc (length (visited s)) \<and> length (visited s) < maxStatesLimit cfg)"
proof (cases "depth task > maxDepthLimit cfg")
  case True
  with assms show ?thesis by (simp add: loopBody_def)
next
  case False
  show ?thesis
  proof (cases "length (visited s) \<ge> maxStatesLimit cfg")
    case True
    with False assms show ?thesis by (simp add: loopBody_def)
  next
    case below: False
    let ?s1 = "s\<lparr>processed := processed s @ [task]\<rparr>"
    obtain r s2 where e: "exploreTask drv rt cfg task ?s1 = (r, s2)"
      by (cases "exploreTask drv rt cfg task ?s1")
    from exploreTask_post [of ?s1 drv rt cfg task] e have "task_post ?s1 s2" by simp
    from task_post_visited [OF this]
    have v: "(visited s2 = visited s \<and> queue s2 = queue s)
        \<or> length (visited s2) = Suc (length (visited s))" by simp
    from assms False below e
    have "visited s' = visited s2 \<and> queue s' = queue s2"
      by (cases r) (auto simp: loopBody_def emit_def modify_def)
    with v below show ?thesis by auto
  qed
qed

section \<open>Explorer: the main loop and \<^verbatim>\<open>explore\<close>\<close>

text \<open>
  \<^verbatim>\<open>while (this.queue.length > 0) { const task = this.queue.shift()!; ... }\<close>. Every pass
  either marks a new state visited, below the limit, or leaves the visited set alone and the
  queue shorter.
\<close>

function explore_loop :: "'w driver \<Rightarrow> js_runtime \<Rightarrow> ExplorerConfig \<Rightarrow> ('w Explorer, unit) prog" where
  "explore_loop drv rt cfg s =
     (case queue s of
        [] \<Rightarrow> (Inr (), s)
      | task # rest \<Rightarrow>
          (case loopBody drv rt cfg task (s\<lparr>queue := rest\<rparr>) of
             (Continue, s') \<Rightarrow> explore_loop drv rt cfg s'
           | (Break, s') \<Rightarrow> (Inr (), s')
           | (Raised e, s') \<Rightarrow> (Inl e, s')))"
  by pat_completeness auto

termination
proof (relation "inv_image (less_than <*lex*> less_than)
    (\<lambda>(drv, rt, cfg, s). (maxStatesLimit cfg - length (visited s), length (queue s)))")
  show "wf (inv_image (less_than <*lex*> less_than)
    (\<lambda>(drv :: 'a driver, rt :: js_runtime, cfg, s :: 'a Explorer).
        (maxStatesLimit cfg - length (visited s), length (queue s))))"
    by (intro wf_inv_image wf_lex_prod wf_less_than)
next
  fix drv :: "'a driver" and rt cfg and s :: "'a Explorer" and task rest x s'
  assume q: "queue s = task # rest"
    and x: "(x, s') = loopBody drv rt cfg task (s\<lparr>queue := rest\<rparr>)"
    and c: "x = Continue"
  from x c have "loopBody drv rt cfg task (s\<lparr>queue := rest\<rparr>) = (Continue, s')" by simp
  from loopBody_Continue [OF this] q
  show "((drv, rt, cfg, s'), drv, rt, cfg, s)
       \<in> inv_image (less_than <*lex*> less_than)
           (\<lambda>(drv, rt, cfg, s). (maxStatesLimit cfg - length (visited s), length (queue s)))"
    by auto
qed

declare explore_loop.simps [simp del]

text \<open>The state of a new \<^verbatim>\<open>Explorer\<close>, as the constructor leaves it.\<close>

definition newExplorer :: "'w \<Rightarrow> 'w Explorer" where
  "newExplorer w =
     \<lparr>graph = \<lparr>states = [], startStates = []\<rparr>, visited = [], queue = [], events = [],
      consoleErrors = [], has_context = False, has_browser = False, lastIndex = (\<lambda>_. 0),
      processed = [], world = w\<rparr>"

definition initialize :: "'w driver \<Rightarrow> ExplorerConfig \<Rightarrow> ('w Explorer, unit) prog" where
  "initialize drv cfg =
     andThen (inWorld (page_op drv Launch)) (\<lambda>_.
     andThen (modify (\<lambda>s. s\<lparr>has_browser := True\<rparr>)) (\<lambda>_.
     andThen (inWorld (page_op drv NewContext)) (\<lambda>_.
     andThen (modify (\<lambda>s. s\<lparr>has_context := True\<rparr>)) (\<lambda>_.
     whenDo (supabase_configured cfg) (inWorld (page_op drv ConnectSupabase))))))"

definition cleanup :: "'w driver \<Rightarrow> ('w Explorer, unit) prog" where
  "cleanup drv =
     andThen (inWorld (page_op drv DisconnectAll)) (\<lambda>_.
     andThen (\<lambda>s. if has_context s
                   then andThen (inWorld (page_op drv ContextClose)) (\<lambda>_.
                          modify (\<lambda>s. s\<lparr>has_context := False\<rparr>)) s
                   else (Inr (), s)) (\<lambda>_.
     (\<lambda>s. if has_browser s
           then andThen (inWorld (page_op drv BrowserClose)) (\<lambda>_.
                  modify (\<lambda>s. s\<lparr>has_browser := False\<rparr>)) s
           else (Inr (), s))))"

text \<open>The start tasks: every start URL in every viewport, at depth 0 with an empty path.\<close>

definition startTasks :: "ExplorerConfig \<Rightarrow> ExplorationTask list" where
  "startTasks cfg =
     concat (map (\<lambda>url.
        map (\<lambda>viewport. \<lparr>task_url = url, path = [], depth = 0, task_viewport = viewport\<rparr>)
          (case viewports (exploration cfg) of None \<Rightarrow> [Desktop] | Some vs \<Rightarrow> vs))
       (case startUrls cfg of None \<Rightarrow> [baseUrl cfg] | Some urls \<Rightarrow> urls))"

record ExplorationSummary =
  statesExplored :: nat
  actionsPerformed :: nat
  issuesFound :: nat
  verificationsPassed :: nat
  verificationsFailed :: nat
  urlsCovered :: "string list"

record ExplorationResult =
  result_graph :: StateGraph
  summary :: ExplorationSummary
  result_issues :: "Issue list"
  all_verifications :: "VerificationResult list"

definition buildResult :: "'w Explorer \<Rightarrow> ExplorationResult" where
  "buildResult s =
     (let found = getAllIssues s; verifs = getAllVerifications s in
      \<lparr>result_graph = graph s,
       summary =
         \<lparr>statesExplored = length (states (graph s)),
          actionsPerformed = sum_list (map (\<lambda>(k, node). length (transitions node)) (states (graph s))),
          issuesFound = length found,
          verificationsPassed = length (filter passed verifs),
          verificationsFailed = length (filter (\<lambda>v. \<not> passed v) verifs),
          urlsCovered = fold set_add
            (map (\<lambda>(k, node). state_url (node_state node)) (states (graph s))) []\<rparr>,
       result_issues = found,
       all_verifications = verifs\<rparr>)"

definition explore ::
  "'w driver \<Rightarrow> js_runtime \<Rightarrow> ExplorerConfig \<Rightarrow> ('w Explorer, ExplorationResult) prog" where
  "explore drv rt cfg =
     andThen (emit EvStart) (\<lambda>_.
     tryFinally
       (tryCatch
          (andThen (initialize drv cfg) (\<lambda>_.
           andThen (modify (\<lambda>s. s\<lparr>queue := queue s @ startTasks cfg\<rparr>)) (\<lambda>_.
           andThen (explore_loop drv rt cfg) (\<lambda>_.
           andThen (\<lambda>s. (Inr (buildResult s), s)) (\<lambda>result.
           andThen (emit EvComplete) (\<lambda>_. ret result))))))
          (\<lambda>err. andThen (emit (EvError err)) (\<lambda>_. raise err)))
       (cleanup drv))"

section \<open>Sample inputs\<close>

text \<open>
  A runtime whose regular expressions match by substring (whatever the flags) and which
  rejects the source \<^verbatim>\<open>(\<close>, whose URLs split after the 18 characters of
  \<^verbatim>\<open>http://example.com\<close>, and a network with one dead and one slow page. \<open>find_from\<close> gives
  the end of the first occurrence of the needle in a string whose first character has index
  \<open>i\<close>.
\<close>

fun find_from :: "string \<Rightarrow> string \<Rightarrow> nat \<Rightarrow> nat option" where
  "find_from needle [] i = (if needle = [] then Some i else None)"
| "find_from needle (c # cs) i =
     (if prefix needle (c # cs) then Some (i + length needle) else find_from needle cs (Suc i))"

definition wit_rt :: js_runtime where
  "wit_rt = \<lparr>RegExp_syntax_ok = (\<lambda>s f. s \<noteq> ''(''),
     RegExp_exec = (\<lambda>src fl i s. find_from src (drop i s) i),
     URL_new = (\<lambda>u. Inr (take 18 u, drop 18 u))\<rparr>"

definition wit_link :: "string \<Rightarrow> LinkInfo" where
  "wit_link h = \<lparr>href = h, link_text = h, link_selector = ''a'', isExternal = False\<rparr>"

definition wit_fetch :: fetch_fn where
  "wit_fetch h m follow =
     (if h = ''http://example.com/gone'' then Response 404 False h
      else if h = ''http://example.com/slow''
        then FetchThrows (JSError ''AbortError'' ''This operation was aborted'')
      else Response 200 False h)"

definition wit_matcher :: ActionMatcher where
  "wit_matcher = \<lparr>m_selector = None, m_text = None, m_role = None, m_context = None,
     m_custom = None\<rparr>"

definition wit_schema :: "ActionMatcher \<Rightarrow> string \<Rightarrow> ActionSchema" where
  "wit_schema m d = \<lparr>match = m, setup_steps = None, expects = None, schema_description = Some d\<rparr>"

definition wit_schemas :: "ActionSchema list" where
  "wit_schemas =
     [wit_schema (wit_matcher\<lparr>m_selector := Some ''input''\<rparr>) ''inputs'',
      wit_schema (wit_matcher\<lparr>m_selector := Some ''button'', m_text := Some (PString ''Add'')\<rparr>)
        ''add buttons'',
      wit_schema (wit_matcher\<lparr>m_role := Some ''button''\<rparr>) ''any button'']"

text \<open>
  Two lists of schemas whose second schema matches every button: in the first list the text
  of the first schema is the string \<^verbatim>\<open>(\<close>, in the second it is the object \<^verbatim>\<open>/Add/g\<close>.
\<close>

definition cx_invalid_schemas :: "ActionSchema list" where
  "cx_invalid_schemas =
     [wit_schema (wit_matcher\<lparr>m_text := Some (PString ''('')\<rparr>) ''unbalanced'',
      wit_schema (wit_matcher\<lparr>m_role := Some ''button''\<rparr>) ''any button'']"

definition cx_global_schemas :: "ActionSchema list" where
  "cx_global_schemas =
     [wit_schema (wit_matcher\<lparr>m_text := Some (PRegExp (RegExp 1 ''Add'' ''g''))\<rparr>) ''add'',
      wit_schema (wit_matcher\<lparr>m_role := Some ''button''\<rparr>) ''any button'']"

definition wit_exploration :: ExplorationConfig where
  "wit_exploration = \<lparr>maxDepth = Some 2, maxStates = Some 10, maxActionsPerState = Some 50,
     timeout = Some 10000, viewports = Some [Desktop], waitForNetworkIdle = Some False,
     actionDelay = None\<rparr>"

definition wit_config :: ExplorerConfig where
  "wit_config = \<lparr>baseUrl = ''http://example.com/'', startUrls = None,
     actionSchemas = Some wit_schemas, exploration = wit_exploration,
     validators = \<lparr>accessibility_enabled = Some False, responsive_enabled = Some False,
                    console = None\<rparr>,
     output_cfg = \<lparr>output_dir = None, screenshots = Some False, screenshotFormat = None\<rparr>,
     ignore = None, supabase_configured = False\<rparr>"

definition cx_invalid_config :: ExplorerConfig where
  "cx_invalid_config = wit_config\<lparr>actionSchemas := Some cx_invalid_schemas\<rparr>"

definition cx_global_config :: ExplorerConfig where
  "cx_global_config = wit_config\<lparr>actionSchemas := Some cx_global_schemas\<rparr>"

definition wit_action :: "string \<Rightarrow> string \<Rightarrow> Action" where
  "wit_action sel lbl = \<lparr>action_type = Click, selector = sel, label = lbl, action_value = None,
     role = Some ''button'', destructive = None\<rparr>"

definition wit_state :: "string \<Rightarrow> ViewportName \<Rightarrow> AppState" where
  "wit_state u vp = \<lparr>state_id = u, state_url = u, title = [], domFingerprint = [],
     state_viewport = vp, screenshot = None\<rparr>"

definition wit_click :: "string \<Rightarrow> Action" where
  "wit_click sel = \<lparr>action_type = Click, selector = sel, label = sel, action_value = None,
     role = Some ''button'', destructive = None\<rparr>"

definition wit_error :: exn where
  "wit_error = JSError ''Error'' ''failed''"

text \<open>
  A site of two pages. The session is the URL of the page shown. \<^verbatim>\<open>#next\<close> on the start
  page leads to the second page; \<^verbatim>\<open>#missing\<close> is on no page, and every call on it raises.
  \<^verbatim>\<open>#shown\<close> is visible, \<^verbatim>\<open>#broken\<close> makes \<^verbatim>\<open>isVisible\<close> raise. The one adapter, \<^verbatim>\<open>supabase\<close>,
  confirms inserts and raises on every other action.
\<close>

definition wit_page_op :: "page_call \<Rightarrow> (string, unit) prog" where
  "wit_page_op c w =
     (case c of
        Goto u _ _ \<Rightarrow> (Inr (), u)
      | LocatorWaitForVisible sel _ \<Rightarrow> if sel = ''#missing'' then (Inl wit_error, w) else (Inr (), w)
      | LocatorClick sel _ \<Rightarrow>
          if sel = ''#next'' \<and> w = ''http://example.com/'' then (Inr (), ''http://example.com/next'')
          else (Inr (), w)
      | PageClick sel _ \<Rightarrow> if sel = ''#missing'' then (Inl wit_error, w) else (Inr (), w)
      | _ \<Rightarrow> (Inr (), w))"

definition wit_drv :: "string driver" where
  "wit_drv =
     \<lparr>page_op = wit_page_op,
      captureState = (\<lambda>vp w. (Inr (wit_state w vp), w)),
      discoverActions = (\<lambda>_ w. (Inr (if w = ''http://example.com/''
                                     then [wit_click ''#missing'', wit_click ''#next''] else []), w)),
      prioritizeActions = (\<lambda>as. as),
      page_url = (\<lambda>w. w),
      isVisible = (\<lambda>sel w. if sel = ''#broken'' then Inl wit_error else Inr (sel = ''#shown'')),
      captureAllStates = (\<lambda>w. (Inr (), w)),
      adapter_registered = (\<lambda>n w. n = ''supabase''),
      adapter_verify = (\<lambda>n a arg w.
         if a = ''insert''
         then Inr \<lparr>passed = True, message = ''Found 1 matching rows'', verification_type = VDatabase,
                   expected = None, actual = None\<rparr>
         else Inl wit_error),
      validate_accessibility = (\<lambda>vp w. (Inr \<lparr>validator = ''accessibility'', issues = []\<rparr>, w)),
      validate_responsive = (\<lambda>vp w. (Inr \<lparr>validator = ''responsive'', issues = []\<rparr>, w)),
      poll_console = (\<lambda>w. ([], w)),
      resolveTestData = (\<lambda>v w. (Inr v, w))\<rparr>"






definition wit_step :: "string \<Rightarrow> bool option \<Rightarrow> SetupStep" where
  "wit_step sel opt = \<lparr>step_fill = None, step_click = Some sel, step_select = None,
     step_value = None, step_waitFor = None, step_delay = None, optional = opt\<rparr>"

definition wit_ui_expectation :: UiExpectation where
  "wit_ui_expectation = \<lparr>ui_visible = Some [''#shown'', ''#gone'', ''#broken''],
     ui_hidden = Some [''#gone'', ''#shown'', ''#broken''], ui_text = None, ui_url = None,
     ui_title = None\<rparr>"

text \<open>The same selectors, with the string \<^verbatim>\<open>(\<close> as \<^verbatim>\<open>url\<close>.\<close>

definition cx_ui_expectation :: UiExpectation where
  "cx_ui_expectation = wit_ui_expectation\<lparr>ui_url := Some (PString ''('')\<rparr>"

definition wit_base :: string where
  "wit_base = ''http://example.com/''"

definition wit_task :: ExplorationTask where
  "wit_task = \<lparr>task_url = wit_base, path = [], depth = 0, task_viewport = Desktop\<rparr>"

text \<open>The Explorer after the start page was visited and added to the graph.\<close>

definition wit_explorer :: "string Explorer" where
  "wit_explorer =
     (newExplorer wit_base)
       \<lparr>graph := \<lparr>states = [(wit_base, \<lparr>node_state = wit_state wit_base Desktop,
                                         node_issues = [], transitions = []\<rparr>)],
                  startStates = [wit_base]\<rparr>,
        visited := [wit_base], has_context := True, has_browser := True\<rparr>"

text \<open>The configuration of the sample site with \<^verbatim>\<open>maxDepth: 0\<close>.\<close>

definition cx_config :: ExplorerConfig where
  "cx_config = wit_config\<lparr>exploration := wit_exploration\<lparr>maxDepth := Some 0\<rparr>\<rparr>"






section \<open>Verification: BrokenLinksValidator\<close>

text \<open>
  A cache is consistent when every entry is what a fresh check of a link with that
  \<^verbatim>\<open>href\<close> stores. The empty cache is, and \<open>checkLink\<close> keeps it so; on a consistent cache
  the answer for a link does not depend on whether it was cached.
\<close>

definition cache_ok :: "BrokenLinksValidatorConfig \<Rightarrow> fetch_fn \<Rightarrow> link_cache \<Rightarrow> bool" where
  "cache_ok cfg fetch cache =
     (\<forall>h r. cache h = Some r \<longrightarrow> (\<exists>l. href l = h \<and> r = fetchLink cfg fetch l))"

lemma fetchLink_relink:
  "href l' = href l \<Longrightarrow> (fetchLink cfg fetch l')\<lparr>link := l\<rparr> = fetchLink cfg fetch l"
  by (simp add: fetchLink_def Let_def split: fetch_outcome.splits)

lemma checkLink_cache_ok:
  assumes "cache_ok cfg fetch cache"
  shows "fst (checkLink cfg fetch cache l) = fetchLink cfg fetch l"
    and "cache_ok cfg fetch (snd (checkLink cfg fetch cache l))"
proof -
  have rel: "x\<lparr>link := l\<rparr> = fetchLink cfg fetch l" if "cache (href l) = Some x" for x
  proof -
    from assms that obtain l' where "href l' = href l" "x = fetchLink cfg fetch l'"
      unfolding cache_ok_def by blast
    then show ?thesis by (simp add: fetchLink_relink)
  qed
  show "fst (checkLink cfg fetch cache l) = fetchLink cfg fetch l"
    by (simp add: checkLink_def Let_def rel split: option.splits)
  show "cache_ok cfg fetch (snd (checkLink cfg fetch cache l))"
    using assms unfolding cache_ok_def checkLink_def Let_def
    by (auto split: option.splits)
qed

lemma checkLinksInOrder_cache_ok:
  "cache_ok cfg fetch cache \<Longrightarrow>
     fst (checkLinksInOrder cfg fetch cache ls) = map (fetchLink cfg fetch) ls"
proof (induction ls arbitrary: cache)
  case Nil
  then show ?case by simp
next
  case (Cons l ls)
  obtain r cache' where c: "checkLink cfg fetch cache l = (r, cache')"
    by (cases "checkLink cfg fetch cache l")
  from checkLink_cache_ok [OF Cons.prems, of l] c
  have r: "r = fetchLink cfg fetch l" and ok: "cache_ok cfg fetch cache'" by simp_all
  from Cons.IH [OF ok] show ?case
    by (cases "checkLinksInOrder cfg fetch cache' ls") (simp add: c r)
qed

lemma resultsToIssues_concat:
  "resultsToIssues cfg vp rs = concat (map (\<lambda>r. case resultToIssue cfg r vp of None \<Rightarrow> [] | Some i \<Rightarrow> [i]) rs)"
  by (induction rs) (auto split: option.splits)

lemma mset_concat_map_3:
  assumes "mset xs = {#a, b, c#}"
  shows "mset (concat (map f xs)) = mset (f a) + mset (f b) + mset (f c)"
proof -
  have "mset (concat (map f xs)) = sum_list (map (\<lambda>x. mset (f x)) xs)"
    by (simp add: mset_concat comp_def)
  also have "\<dots> = sum_mset (image_mset (\<lambda>x. mset (f x)) (mset xs))"
    by (metis mset_map sum_mset_sum_list)
  finally show ?thesis by (simp add: assms ac_simps)
qed

lemma cache_ok_empty: "cache_ok cfg fetch Map.empty"
  by (simp add: cache_ok_def)

lemma validate_fresh:
  assumes "bl_enabled cfg"
    and "fst (filterLinks rt cfg pageUrl links st) = Inr links"
  shows "\<exists>cache' st'. validate rt cfg fetch Map.empty (Inr links) pageUrl vp st =
           (Inr (\<lparr>validator = ''brokenLinks'',
                  issues = concat (map (\<lambda>l. case resultToIssue cfg (fetchLink cfg fetch l) vp of
                                               None \<Rightarrow> [] | Some i \<Rightarrow> [i]) links)\<rparr>, cache'), st')"
proof -
  have conc: "checkLinksWithConcurrency cfg fetch Map.empty links 5 =
      checkLinksInOrder cfg fetch Map.empty links"
    by (cases links) (simp_all add: checkLinksWithConcurrency_def)
  have res: "fst (checkLinksInOrder cfg fetch Map.empty links) = map (fetchLink cfg fetch) links"
    by (rule checkLinksInOrder_cache_ok [OF cache_ok_empty])
  obtain rs c' where co: "checkLinksInOrder cfg fetch Map.empty links = (rs, c')"
    by (cases "checkLinksInOrder cfg fetch Map.empty links")
  with res have rs: "rs = map (fetchLink cfg fetch) links" by simp
  obtain st' where fl: "filterLinks rt cfg pageUrl links st = (Inr links, st')"
    using assms(2) by (cases "filterLinks rt cfg pageUrl links st") simp
  show ?thesis
    using assms(1)
    by (simp add: validate_def andThen_def ret_def fl conc co rs resultsToIssues_concat comp_def)
qed

lemma resultToIssue_404:
  assumes "fetch (href a) HEAD (followRedirects cfg) = Response 404 ra ua"
  shows "\<exists>i. resultToIssue cfg (fetchLink cfg fetch a) vp = Some i \<and> rule i = ''broken-link-404'' \<and> severity i = Serious
     \<and> elements i = Some [link_selector a]"
  using assms by (simp add: resultToIssue_def fetchLink_def Let_def)

lemma resultToIssue_timeout:
  assumes "fetch (href b) HEAD (followRedirects cfg) = FetchThrows (JSError ''AbortError'' m)"
    and "bl_timeout cfg = 5000"
  shows "\<exists>i. resultToIssue cfg (fetchLink cfg fetch b) vp = Some i \<and> rule i = ''link-timeout'' \<and> severity i = Moderate
     \<and> elements i = Some [link_selector b] \<and> description i = ''Link timed out after 5000ms: '' @ dq @ link_text b @ dq"
  using assms by (simp add: resultToIssue_def fetchLink_def Let_def catchMessage_def string_of_nat.simps digit_char_def)

lemma resultToIssue_200:
  assumes "fetch (href c) HEAD (followRedirects cfg) = Response 200 rc uc"
  shows "resultToIssue cfg (fetchLink cfg fetch c) vp = None"
  using assms by (simp add: resultToIssue_def fetchLink_def Let_def)

text \<open>
  C8. The broken-links validator, fresh and with the 5000 ms timeout, is given three links
  that its filter keeps, in any order: \<open>a\<close> answers 404, the request for \<open>b\<close> is aborted
  by the timeout, \<open>c\<close> answers 200. Validation returns exactly two issues: the one for
  \<open>a\<close> has rule \<^verbatim>\<open>broken-link-404\<close> and severity serious, the one for \<open>b\<close> has rule
  \<^verbatim>\<open>link-timeout\<close> and severity moderate (and names the 5000 ms), and \<open>c\<close> gives no issue.
\<close>

theorem broken_links_scenario:
  assumes en: "bl_enabled cfg" and tmo: "bl_timeout cfg = 5000"
    and links: "mset links = {#a, b, c#}"
    and keep: "fst (filterLinks rt cfg pageUrl links st) = Inr links"
    and fa: "fetch (href a) HEAD (followRedirects cfg) = Response 404 ra ua"
    and fb: "fetch (href b) HEAD (followRedirects cfg) = FetchThrows (JSError ''AbortError'' m)"
    and fc: "fetch (href c) HEAD (followRedirects cfg) = Response 200 rc uc"
  shows "\<exists>res cache' st' i404 itimeout.
           validate rt cfg fetch Map.empty (Inr links) pageUrl vp st = (Inr (res, cache'), st')
         \<and> mset (issues res) = {#i404, itimeout#}
         \<and> resultToIssue cfg (fst (checkLink cfg fetch Map.empty a)) vp = Some i404
         \<and> rule i404 = ''broken-link-404'' \<and> severity i404 = Serious
         \<and> resultToIssue cfg (fst (checkLink cfg fetch Map.empty b)) vp = Some itimeout
         \<and> rule itimeout = ''link-timeout'' \<and> severity itimeout = Moderate
         \<and> description itimeout = ''Link timed out after 5000ms: '' @ dq @ link_text b @ dq
         \<and> resultToIssue cfg (fst (checkLink cfg fetch Map.empty c)) vp = None"
proof -
  let ?f = "\<lambda>l. case resultToIssue cfg (fetchLink cfg fetch l) vp of None \<Rightarrow> [] | Some i \<Rightarrow> [i]"
  from validate_fresh [OF en keep, of fetch vp] obtain cache' st' where
    v: "validate rt cfg fetch Map.empty (Inr links) pageUrl vp st =
          (Inr (\<lparr>validator = ''brokenLinks'', issues = concat (map ?f links)\<rparr>, cache'), st')"
    by blast
  from resultToIssue_404 [where fetch = fetch and a = a, OF fa, of vp] obtain i1 where
    i1: "resultToIssue cfg (fetchLink cfg fetch a) vp = Some i1"
      "rule i1 = ''broken-link-404''" "severity i1 = Serious"
    by blast
  from resultToIssue_timeout [where fetch = fetch and b = b, OF fb tmo, of vp] obtain i2 where
    i2: "resultToIssue cfg (fetchLink cfg fetch b) vp = Some i2"
      "rule i2 = ''link-timeout''" "severity i2 = Moderate"
      "description i2 = ''Link timed out after 5000ms: '' @ dq @ link_text b @ dq"
    by blast
  note i3 = resultToIssue_200 [where fetch = fetch and c = c, OF fc, of vp]
  have "mset (concat (map ?f links)) = mset (?f a) + mset (?f b) + mset (?f c)"
    by (rule mset_concat_map_3 [OF links])
  then have m: "mset (concat (map ?f links)) = {#i1, i2#}"
    by (simp add: i1 i2 i3)
  have fresh: "fst (checkLink cfg fetch Map.empty l) = fetchLink cfg fetch l" for l
    by (rule checkLink_cache_ok(1) [OF cache_ok_empty])
  show ?thesis
    using v m i1 i2 i3 by (simp add: fresh)
qed

text \<open>
  The scenario on the default configuration, with the links in the order 200, timeout, 404.
\<close>

theorem broken_links_scenario_witness:
  "\<exists>res cache' st'.
      validate wit_rt DEFAULT_BROKEN_LINKS_CONFIG wit_fetch Map.empty
        (Inr [wit_link ''http://example.com/ok'', wit_link ''http://example.com/slow'',
              wit_link ''http://example.com/gone''])
        ''http://example.com/'' Desktop (\<lambda>_. 0) = (Inr (res, cache'), st')
    \<and> mset (map rule (issues res)) = {#''broken-link-404'', ''link-timeout''#}
    \<and> mset (map severity (issues res)) = {#Serious, Moderate#}"
proof -
  let ?a = "wit_link ''http://example.com/gone''"
  let ?b = "wit_link ''http://example.com/slow''"
  let ?c = "wit_link ''http://example.com/ok''"
  let ?cfg = DEFAULT_BROKEN_LINKS_CONFIG
  have en: "bl_enabled ?cfg" and tmo: "bl_timeout ?cfg = 5000"
    by (simp_all add: DEFAULT_BROKEN_LINKS_CONFIG_def)
  have links: "mset [?c, ?b, ?a] = {#?a, ?b, ?c#}" by simp
  have keep: "fst (filterLinks wit_rt ?cfg ''http://example.com/'' [?c, ?b, ?a] (\<lambda>_. 0))
      = Inr [?c, ?b, ?a]"
    by (simp add: shouldCheckLink_def DEFAULT_BROKEN_LINKS_CONFIG_def wit_rt_def wit_link_def
        andThen_def ret_def)
  have fa: "wit_fetch (href ?a) HEAD (followRedirects ?cfg) = Response 404 False (href ?a)"
    by (simp add: wit_fetch_def wit_link_def)
  have fb: "wit_fetch (href ?b) HEAD (followRedirects ?cfg) =
      FetchThrows (JSError ''AbortError'' ''This operation was aborted'')"
    by (simp add: wit_fetch_def wit_link_def)
  have fc: "wit_fetch (href ?c) HEAD (followRedirects ?cfg) = Response 200 False (href ?c)"
    by (simp add: wit_fetch_def wit_link_def)
  from broken_links_scenario [where fetch = wit_fetch and a = ?a and b = ?b and c = ?c,
      OF en tmo links keep fa fb fc, of Desktop]
  obtain res cache' st' i404 itimeout where
    v: "validate wit_rt ?cfg wit_fetch Map.empty (Inr [?c, ?b, ?a]) ''http://example.com/'' Desktop
          (\<lambda>_. 0) = (Inr (res, cache'), st')"
    and m: "mset (issues res) = {#i404, itimeout#}"
    and r: "rule i404 = ''broken-link-404''" "severity i404 = Serious"
      "rule itimeout = ''link-timeout''" "severity itimeout = Moderate"
    by blast
  from m have "mset (map rule (issues res)) = {#rule i404, rule itimeout#}"
    and "mset (map severity (issues res)) = {#severity i404, severity itimeout#}"
    by (metis image_mset_add_mset image_mset_empty mset_map)+
  with v r show ?thesis
    by (intro exI [of _ res] exI [of _ cache'] exI [of _ st']) simp
qed

section \<open>Verification: schema matching\<close>

text \<open>
  What the criteria of a matcher say, stated apart from the code that tests them. A pattern
  matches a string when the runtime's matcher, started at the beginning of the string, finds
  a match; a string pattern stands for the expression with that source and the flags the
  criterion gives it (\<^verbatim>\<open>i\<close> for the text, none for the context). Each of the four criteria
  holds when the matcher does not set it.
\<close>

definition matches :: "js_runtime \<Rightarrow> string \<Rightarrow> pattern \<Rightarrow> string \<Rightarrow> bool" where
  "matches rt fl p s =
     (case p of
        PString src \<Rightarrow> RegExp_exec rt src fl 0 s \<noteq> None
      | PRegExp r \<Rightarrow> RegExp_exec rt (source r) (flags r) 0 s \<noteq> None)"

definition selector_holds :: "ActionMatcher \<Rightarrow> Action \<Rightarrow> bool" where
  "selector_holds m action =
     (truthy_str (m_selector m) \<longrightarrow> str_includes (selector action) (the (m_selector m)))"

definition text_holds :: "js_runtime \<Rightarrow> ActionMatcher \<Rightarrow> Action \<Rightarrow> bool" where
  "text_holds rt m action =
     (truthy_pattern (m_text m) \<longrightarrow> matches rt ''i'' (the (m_text m)) (label action))"

definition role_holds :: "ActionMatcher \<Rightarrow> Action \<Rightarrow> bool" where
  "role_holds m action = (truthy_str (m_role m) \<longrightarrow> role action = m_role m)"

definition context_holds :: "js_runtime \<Rightarrow> ActionMatcher \<Rightarrow> string \<Rightarrow> bool" where
  "context_holds rt m url =
     (truthy_pattern (m_context m) \<longrightarrow> matches rt [] (the (m_context m)) url)"

definition criteria_hold :: "js_runtime \<Rightarrow> ActionSchema \<Rightarrow> Action \<Rightarrow> string \<Rightarrow> bool" where
  "criteria_hold rt schema action url =
     (selector_holds (match schema) action \<and> text_holds rt (match schema) action
      \<and> role_holds (match schema) action \<and> context_holds rt (match schema) url)"

definition schemas_of :: "ExplorerConfig \<Rightarrow> ActionSchema list" where
  "schemas_of cfg = (case actionSchemas cfg of None \<Rightarrow> [] | Some schemas \<Rightarrow> schemas)"

text \<open>
  A pattern compiles when, being a string, the runtime accepts it as the source of a regular
  expression. It is stateless when, being a \<^verbatim>\<open>RegExp\<close> object, it has neither the \<^verbatim>\<open>g\<close> nor
  the \<^verbatim>\<open>y\<close> flag.
\<close>

definition pattern_compiles :: "js_runtime \<Rightarrow> string \<Rightarrow> pattern option \<Rightarrow> bool" where
  "pattern_compiles rt fl p =
     (case p of Some (PString s) \<Rightarrow> s = [] \<or> RegExp_syntax_ok rt s fl | _ \<Rightarrow> True)"

definition pattern_stateless :: "pattern option \<Rightarrow> bool" where
  "pattern_stateless p = (case p of Some (PRegExp r) \<Rightarrow> \<not> stateful (flags r) | _ \<Rightarrow> True)"

definition matcher_ok :: "js_runtime \<Rightarrow> ActionMatcher \<Rightarrow> bool" where
  "matcher_ok rt m =
     (pattern_compiles rt ''i'' (m_text m) \<and> pattern_stateless (m_text m)
      \<and> pattern_compiles rt [] (m_context m) \<and> pattern_stateless (m_context m))"

lemma RegExp_test_fresh: "fst (RegExp_test rt src fl 0 s) = (RegExp_exec rt src fl 0 s \<noteq> None)"
  by (simp add: RegExp_test_def split: option.splits)

lemma pattern_test_matches:
  assumes "pattern_compiles rt fl p" and "pattern_stateless p" and "truthy_pattern p"
  shows "pattern_test rt fl (the p) s st = (Inr (matches rt fl (the p) s), st)"
proof (cases p)
  case None
  with assms(3) show ?thesis by (simp add: truthy_pattern_def)
next
  case (Some q)
  show ?thesis
  proof (cases q)
    case (PString src)
    with Some assms(1,3) have "RegExp_syntax_ok rt src fl"
      by (simp add: pattern_compiles_def truthy_pattern_def)
    with Some PString show ?thesis
      by (simp add: pattern_test_def matches_def RegExp_test_fresh)
  next
    case (PRegExp r)
    with Some assms(2) have "\<not> stateful (flags r)" by (simp add: pattern_stateless_def)
    with Some PRegExp show ?thesis
      by (simp add: pattern_test_def matches_def RegExp_test_def)
  qed
qed

lemma matchSchemas_find:
  "\<forall>s\<in>set schemas. matcher_ok rt (match s) \<Longrightarrow>
     matchSchemas rt action url schemas st =
       (Inr (List.find (\<lambda>s. criteria_hold rt s action url) schemas), st)"
proof (induction schemas)
  case Nil
  then show ?case by (simp add: ret_def)
next
  case (Cons schema rest)
  let ?m = "match schema"
  from Cons.prems have ok: "matcher_ok rt ?m" and rest: "\<forall>s\<in>set rest. matcher_ok rt (match s)"
    by simp_all
  note IH = Cons.IH [OF rest]
  have t: "(if truthy_pattern (m_text ?m)
            then pattern_test rt ''i'' (the (m_text ?m)) (label action) else ret True) st
      = (Inr (text_holds rt ?m action), st)"
    using ok pattern_test_matches [of rt "''i''" "m_text ?m" "label action" st]
    by (simp add: matcher_ok_def text_holds_def ret_def)
  have c: "(if truthy_pattern (m_context ?m)
            then pattern_test rt [] (the (m_context ?m)) url else ret True) st
      = (Inr (context_holds rt ?m url), st)"
    using ok pattern_test_matches [of rt "[]" "m_context ?m" url st]
    by (simp add: matcher_ok_def context_holds_def ret_def)
  show ?case
    by (simp add: IH Let_def andThen_def t c ret_def criteria_hold_def selector_holds_def
        role_holds_def)
qed

lemma findMatchingSchema_find:
  assumes "\<forall>s\<in>set (schemas_of cfg). matcher_ok rt (match s)"
  shows "findMatchingSchema rt cfg action url st =
           (Inr (List.find (\<lambda>s. criteria_hold rt s action url) (schemas_of cfg)), st)"
  using assms
  by (simp add: findMatchingSchema_def schemas_of_def matchSchemas_find ret_def
      split: option.splits)

text \<open>
  C6 (amended). For every action, page URL and list of configured schemas in which every
  string pattern is a valid regular expression and no \<^verbatim>\<open>RegExp\<close> pattern has the \<^verbatim>\<open>g\<close> or the
  \<^verbatim>\<open>y\<close> flag, \<open>findMatchingSchema\<close> returns the first schema in declaration order whose
  selector, text, role and URL-context criteria all hold for the action, and no schema when
  none of them does; and it leaves the \<^verbatim>\<open>RegExp\<close> objects as they were.
\<close>

theorem findMatchingSchema_first_wins:
  assumes "\<forall>s\<in>set (schemas_of cfg). matcher_ok rt (match s)"
  shows "\<exists>r. findMatchingSchema rt cfg action url st = (Inr r, st) \<and>
           (case r of
              None \<Rightarrow> \<forall>s\<in>set (schemas_of cfg). \<not> criteria_hold rt s action url
            | Some schema \<Rightarrow>
                \<exists>i<length (schemas_of cfg).
                   schema = schemas_of cfg ! i \<and> criteria_hold rt schema action url
                   \<and> (\<forall>j<i. \<not> criteria_hold rt (schemas_of cfg ! j) action url))"
proof -
  let ?P = "\<lambda>s. criteria_hold rt s action url"
  have eq: "findMatchingSchema rt cfg action url st = (Inr (List.find ?P (schemas_of cfg)), st)"
    by (rule findMatchingSchema_find [OF assms])
  show ?thesis
  proof (cases "List.find ?P (schemas_of cfg)")
    case None
    then have "\<forall>s\<in>set (schemas_of cfg). \<not> ?P s" by (simp add: find_None_iff)
    with eq None show ?thesis by simp
  next
    case (Some schema)
    then obtain i where "i < length (schemas_of cfg)" "?P (schemas_of cfg ! i)"
      "schema = schemas_of cfg ! i" "\<forall>j<i. \<not> ?P (schemas_of cfg ! j)"
      unfolding find_Some_iff by blast
    then show ?thesis using eq Some by auto
  qed
qed

text \<open>
  Three schemas of which the second and the third match the action: the second is returned.
\<close>

theorem findMatchingSchema_first_wins_witness:
  "fst (findMatchingSchema wit_rt wit_config (wit_action ''button.primary'' ''Add song'')
          ''http://example.com/'' (\<lambda>_. 0))
     = Inr (Some (wit_schemas ! 1))
   \<and> criteria_hold wit_rt (wit_schemas ! 2) (wit_action ''button.primary'' ''Add song'') ''http://example.com/''"
proof -
  let ?a = "wit_action ''button.primary'' ''Add song''"
  let ?u = "''http://example.com/''"
  have ok: "\<forall>s\<in>set (schemas_of wit_config). matcher_ok wit_rt (match s)"
    by (simp add: schemas_of_def wit_config_def wit_schemas_def wit_schema_def wit_matcher_def
        matcher_ok_def pattern_compiles_def pattern_stateless_def wit_rt_def)
  have c0: "\<not> criteria_hold wit_rt (wit_schemas ! 0) ?a ?u"
    by (simp add: wit_schemas_def wit_schema_def wit_matcher_def criteria_hold_def
        selector_holds_def truthy_str_def wit_action_def)
  have c1: "criteria_hold wit_rt (wit_schemas ! 1) ?a ?u"
    by (simp add: wit_schemas_def wit_schema_def wit_matcher_def criteria_hold_def
        selector_holds_def text_holds_def role_holds_def context_holds_def truthy_str_def
        truthy_pattern_def matches_def wit_rt_def wit_action_def)
  have c2: "criteria_hold wit_rt (wit_schemas ! 2) ?a ?u"
    by (simp add: wit_schemas_def wit_schema_def wit_matcher_def criteria_hold_def
        selector_holds_def text_holds_def role_holds_def context_holds_def truthy_str_def
        truthy_pattern_def wit_action_def)
  have len: "schemas_of wit_config = wit_schemas"
    by (simp add: schemas_of_def wit_config_def)
  from findMatchingSchema_first_wins [OF ok, of ?a ?u "\<lambda>_. 0"]
  obtain r where r: "findMatchingSchema wit_rt wit_config ?a ?u (\<lambda>_. 0) = (Inr r, \<lambda>_. 0)"
    and spec: "case r of
              None \<Rightarrow> \<forall>s\<in>set (schemas_of wit_config). \<not> criteria_hold wit_rt s ?a ?u
            | Some schema \<Rightarrow>
                \<exists>i<length (schemas_of wit_config).
                   schema = schemas_of wit_config ! i \<and> criteria_hold wit_rt schema ?a ?u
                   \<and> (\<forall>j<i. \<not> criteria_hold wit_rt (schemas_of wit_config ! j) ?a ?u)"
    by blast
  have "r = Some (wit_schemas ! 1)"
  proof (cases r)
    case None
    with spec c1 show ?thesis by (simp add: len wit_schemas_def)
  next
    case (Some schema)
    with spec obtain i where i: "i < length wit_schemas" "schema = wit_schemas ! i"
      "criteria_hold wit_rt schema ?a ?u" "\<forall>j<i. \<not> criteria_hold wit_rt (wit_schemas ! j) ?a ?u"
      by (auto simp: len)
    have "i \<noteq> 0"
    proof
      assume "i = 0"
      with i(2,3) c0 show False by simp
    qed
    moreover have "\<not> 1 < i" using i(4) c1 by auto
    ultimately have "i = 1" by simp
    then show ?thesis using Some i by simp
  qed
  with r c2 show ?thesis by simp
qed

text \<open>
  C6 as stated fails in two ways, on the action \<^verbatim>\<open>Add song\<close> of a button. When the text of the
  first schema is the string \<^verbatim>\<open>(\<close>, the call raises, although the criteria of the second
  schema hold. When the text of the first schema is the object \<^verbatim>\<open>/Add/g\<close>, the first call
  returns the first schema and leaves its \<^verbatim>\<open>lastIndex\<close> at 3, and the next call for the same
  action returns the second schema, although the criteria of the first hold.
\<close>

theorem findMatchingSchema_counterexample:
  "isl (fst (findMatchingSchema wit_rt cx_invalid_config
               (wit_action ''button.primary'' ''Add song'') ''http://example.com/'' (\<lambda>_. 0)))
   \<and> criteria_hold wit_rt (cx_invalid_schemas ! 1)
        (wit_action ''button.primary'' ''Add song'') ''http://example.com/''
   \<and> fst (findMatchingSchema wit_rt cx_global_config
             (wit_action ''button.primary'' ''Add song'') ''http://example.com/'' (\<lambda>_. 0))
       = Inr (Some (cx_global_schemas ! 0))
   \<and> snd (findMatchingSchema wit_rt cx_global_config
             (wit_action ''button.primary'' ''Add song'') ''http://example.com/'' (\<lambda>_. 0)) 1 = 3
   \<and> fst (findMatchingSchema wit_rt cx_global_config
             (wit_action ''button.primary'' ''Add song'') ''http://example.com/''
             (snd (findMatchingSchema wit_rt cx_global_config
                     (wit_action ''button.primary'' ''Add song'') ''http://example.com/'' (\<lambda>_. 0))))
       = Inr (Some (cx_global_schemas ! 1))
   \<and> criteria_hold wit_rt (cx_global_schemas ! 0)
        (wit_action ''button.primary'' ''Add song'') ''http://example.com/''"
  by (simp add: findMatchingSchema_def cx_invalid_config_def cx_global_config_def
      cx_invalid_schemas_def cx_global_schemas_def wit_schema_def wit_matcher_def wit_action_def
      wit_rt_def pattern_test_def RegExp_test_def stateful_def andThen_def ret_def Let_def
      truthy_str_def truthy_pattern_def criteria_hold_def selector_holds_def text_holds_def
      role_holds_def context_holds_def matches_def)

section \<open>Verification: setup steps\<close>

text \<open>
  \<open>worldBefore drv steps i w\<close> is the session in which step \<open>i\<close> is attempted when every
  earlier one was attempted.
\<close>

definition stepFails :: "'w driver \<Rightarrow> SetupStep \<Rightarrow> 'w \<Rightarrow> bool" where
  "stepFails drv step w = isl (fst (setupStep drv step w))"

definition afterStep :: "'w driver \<Rightarrow> 'w \<Rightarrow> SetupStep \<Rightarrow> 'w" where
  "afterStep drv w step = snd (setupStep drv step w)"

definition worldBefore :: "'w driver \<Rightarrow> SetupStep list \<Rightarrow> nat \<Rightarrow> 'w \<Rightarrow> 'w" where
  "worldBefore drv steps i w = foldl (afterStep drv) w (take i steps)"

lemma executeSetup_Cons:
  "executeSetup drv (step # rest) w =
     (case setupStep drv step w of
        (Inr _, w') \<Rightarrow> executeSetup drv rest w'
      | (Inl e, w') \<Rightarrow>
          if truthy_bool (optional step) then executeSetup drv rest w' else (Inl e, w'))"
  by (simp add: andThen_def tryCatch_def raise_def ret_def split: prod.splits sum.splits)

lemma executeSetup_all_attempted:
  "(\<forall>i<length steps. stepFails drv (steps ! i) (worldBefore drv steps i w)
        \<longrightarrow> truthy_bool (optional (steps ! i)))
   \<Longrightarrow> executeSetup drv steps w = (Inr (), worldBefore drv steps (length steps) w)"
proof (induction steps arbitrary: w)
  case Nil
  then show ?case by (simp add: ret_def worldBefore_def)
next
  case (Cons step rest)
  obtain r w' where sw: "setupStep drv step w = (r, w')" by (cases "setupStep drv step w")
  have wb: "worldBefore drv (step # rest) (Suc i) w = worldBefore drv rest i w'" for i
    by (simp add: worldBefore_def afterStep_def sw)
  have "\<forall>i<length rest. stepFails drv (rest ! i) (worldBefore drv rest i w')
          \<longrightarrow> truthy_bool (optional (rest ! i))"
  proof (intro allI impI)
    fix i assume "i < length rest" "stepFails drv (rest ! i) (worldBefore drv rest i w')"
    with Cons.prems [rule_format, of "Suc i"] show "truthy_bool (optional (rest ! i))"
      by (simp add: wb)
  qed
  from Cons.IH [OF this] have IH: "executeSetup drv rest w' = (Inr (), worldBefore drv rest (length rest) w')" .
  from Cons.prems [rule_format, of 0] have "isl r \<longrightarrow> truthy_bool (optional step)"
    by (simp add: stepFails_def worldBefore_def sw)
  then show ?case
    by (cases r) (simp_all add: executeSetup_Cons sw IH wb del: executeSetup.simps)
qed

lemma executeSetup_aborts:
  "i < length steps \<Longrightarrow>
   (\<forall>j<i. stepFails drv (steps ! j) (worldBefore drv steps j w) \<longrightarrow> truthy_bool (optional (steps ! j))) \<Longrightarrow>
   setupStep drv (steps ! i) (worldBefore drv steps i w) = (Inl e, w') \<Longrightarrow>
   \<not> truthy_bool (optional (steps ! i)) \<Longrightarrow>
   executeSetup drv steps w = (Inl e, w')"
proof (induction steps arbitrary: w i)
  case Nil
  then show ?case by simp
next
  case (Cons step rest)
  obtain r w1 where sw: "setupStep drv step w = (r, w1)" by (cases "setupStep drv step w")
  have wb: "worldBefore drv (step # rest) (Suc k) w = worldBefore drv rest k w1" for k
    by (simp add: worldBefore_def afterStep_def sw)
  show ?case
  proof (cases i)
    case 0
    with Cons.prems show ?thesis
      by (simp add: executeSetup_Cons worldBefore_def del: executeSetup.simps)
  next
    case (Suc k)
    with Cons.prems have k: "k < length rest" by simp
    have pre: "\<forall>j<k. stepFails drv (rest ! j) (worldBefore drv rest j w1)
          \<longrightarrow> truthy_bool (optional (rest ! j))"
    proof (intro allI impI)
      fix j assume "j < k" "stepFails drv (rest ! j) (worldBefore drv rest j w1)"
      with Cons.prems(2) [rule_format, of "Suc j"] Suc show "truthy_bool (optional (rest ! j))"
        by (simp add: wb)
    qed
    from Cons.prems(3) Suc have st: "setupStep drv (rest ! k) (worldBefore drv rest k w1) = (Inl e, w')"
      by (simp add: wb)
    from Cons.prems(4) Suc have no: "\<not> truthy_bool (optional (rest ! k))" by simp
    note IH = Cons.IH [OF k pre st no]
    from Cons.prems(2) [rule_format, of 0] Suc have "isl r \<longrightarrow> truthy_bool (optional step)"
      by (simp add: stepFails_def worldBefore_def sw)
    then show ?thesis
      by (cases r) (simp_all add: executeSetup_Cons sw IH del: executeSetup.simps)
  qed
qed

text \<open>
  C7. \<open>executeSetup\<close> attempts the steps in order. If every step that fails is marked
  optional, all steps are attempted and no error leaves \<open>executeSetup\<close>: the failures are
  swallowed. If the first failing step that is not optional is step \<open>i\<close>, the attempt ends
  there and its error is the outcome of \<open>executeSetup\<close>.
\<close>

theorem executeSetup_optional_swallowed:
  "((\<forall>i<length steps. stepFails drv (steps ! i) (worldBefore drv steps i w)
        \<longrightarrow> truthy_bool (optional (steps ! i)))
      \<longrightarrow> executeSetup drv steps w = (Inr (), worldBefore drv steps (length steps) w))
   \<and> (\<forall>i e w'. i < length steps
        \<and> (\<forall>j<i. stepFails drv (steps ! j) (worldBefore drv steps j w)
              \<longrightarrow> truthy_bool (optional (steps ! j)))
        \<and> setupStep drv (steps ! i) (worldBefore drv steps i w) = (Inl e, w')
        \<and> \<not> truthy_bool (optional (steps ! i))
      \<longrightarrow> executeSetup drv steps w = (Inl e, w'))"
  using executeSetup_all_attempted [of steps drv w] executeSetup_aborts [of _ steps drv w]
  by blast

text \<open>
  A failing optional step followed by a step that succeeds; and a required step that fails
  between two steps that succeed.
\<close>

lemma wit_step_optional: "optional (wit_step sel opt) = opt"
  by (simp add: wit_step_def)

lemma wit_setupStep:
  "setupStep wit_drv (wit_step sel opt) w =
     (if sel = ''#missing'' then (Inl wit_error, w) else (Inr (), w))"
  by (simp add: setupStep_def wit_step_def wit_drv_def wit_page_op_def andThen_def whenNum_def
      whenStr_def ret_def)

theorem executeSetup_optional_swallowed_witness:
  "executeSetup wit_drv [wit_step ''#missing'' (Some True), wit_step ''#shown'' None]
      ''http://example.com/'' = (Inr (), ''http://example.com/'')
   \<and> stepFails wit_drv (wit_step ''#missing'' (Some True)) ''http://example.com/''
   \<and> executeSetup wit_drv [wit_step ''#shown'' None, wit_step ''#missing'' None,
        wit_step ''#shown'' None] ''http://example.com/'' = (Inl wit_error, ''http://example.com/'')"
proof -
  let ?w = "''http://example.com/''"
  let ?ok = "[wit_step ''#missing'' (Some True), wit_step ''#shown'' None]"
  let ?bad = "[wit_step ''#shown'' None, wit_step ''#missing'' None, wit_step ''#shown'' None]"
  have wb: "worldBefore wit_drv steps i ?w = ?w"
    if "\<forall>s\<in>set steps. \<exists>sel opt. s = wit_step sel opt" for steps i
    using that unfolding worldBefore_def
  proof (induction steps arbitrary: i)
    case Nil
    then show ?case by simp
  next
    case (Cons s steps)
    then obtain sel opt where s: "s = wit_step sel opt" by auto
    have a: "afterStep wit_drv ?w s = ?w" by (simp add: afterStep_def s wit_setupStep)
    show ?case using Cons by (cases i) (simp_all add: a)
  qed
  have wb1: "worldBefore wit_drv ?ok i ?w = ?w" for i by (rule wb) auto
  have wb2: "worldBefore wit_drv ?bad i ?w = ?w" for i by (rule wb) auto
  have f: "stepFails wit_drv (wit_step ''#missing'' (Some True)) ?w"
    by (simp add: stepFails_def wit_setupStep)
  have h1: "\<forall>i<length ?ok. stepFails wit_drv (?ok ! i) (worldBefore wit_drv ?ok i ?w)
        \<longrightarrow> truthy_bool (optional (?ok ! i))"
    unfolding wb1
    by (simp add: stepFails_def wit_setupStep less_Suc_eq truthy_bool_def wit_step_optional)
  have h2: "(1::nat) < length ?bad
        \<and> (\<forall>j<1. stepFails wit_drv (?bad ! j) (worldBefore wit_drv ?bad j ?w)
              \<longrightarrow> truthy_bool (optional (?bad ! j)))
        \<and> setupStep wit_drv (?bad ! 1) (worldBefore wit_drv ?bad 1 ?w) = (Inl wit_error, ?w)
        \<and> \<not> truthy_bool (optional (?bad ! 1))"
    unfolding wb2
    by (simp add: stepFails_def wit_setupStep truthy_bool_def wit_step_optional)
  from executeSetup_optional_swallowed [of ?ok wit_drv ?w] h1
  have r1: "executeSetup wit_drv ?ok ?w = (Inr (), ?w)" by (simp only: wb1) 
  from executeSetup_optional_swallowed [of ?bad wit_drv ?w] h2
  have r2: "executeSetup wit_drv ?bad ?w = (Inl wit_error, ?w)" by blast
  from r1 f r2 show ?thesis by simp
qed

section \<open>Verification: expectations\<close>

definition selectors_of :: "string list option \<Rightarrow> string list" where
  "selectors_of x = (case x of None \<Rightarrow> [] | Some sels \<Rightarrow> sels)"

text \<open>The element is not there: \<^verbatim>\<open>isVisible\<close> answers false, or it raises.\<close>

definition not_present :: "'w driver \<Rightarrow> 'w \<Rightarrow> string \<Rightarrow> bool" where
  "not_present drv w sel = (isVisible drv sel w \<noteq> Inr True)"

lemma checkVisible_passed: "passed (checkVisible drv w sel) = (isVisible drv sel w = Inr True)"
  by (auto simp: checkVisible_def split: sum.splits)

lemma checkHidden_passed: "passed (checkHidden drv w sel) = (isVisible drv sel w \<noteq> Inr True)"
  by (auto simp: checkHidden_def split: sum.splits)

lemma pattern_test_total:
  assumes "pattern_compiles rt fl p" and "truthy_pattern p"
  shows "\<exists>b st'. pattern_test rt fl (the p) s st = (Inr b, st')"
proof (cases p)
  case None
  with assms(2) show ?thesis by (simp add: truthy_pattern_def)
next
  case (Some q)
  show ?thesis
  proof (cases q)
    case (PString src)
    with Some assms have "RegExp_syntax_ok rt src fl"
      by (simp add: pattern_compiles_def truthy_pattern_def)
    with Some PString show ?thesis by (simp add: pattern_test_def)
  next
    case (PRegExp r)
    with Some show ?thesis
      by (cases "RegExp_test rt (source r) (flags r) (st (regexp_id r)) s")
         (simp add: pattern_test_def)
  qed
qed

lemma verifyUi_shape:
  assumes "pattern_compiles rt [] (ui_url u)"
  shows "\<exists>urlResults st'. verifyUiExpectations drv rt w u st =
           (Inr (map (checkVisible drv w) (selectors_of (ui_visible u))
                 @ map (checkHidden drv w) (selectors_of (ui_hidden u)) @ urlResults), st')
         \<and> length urlResults = (if truthy_pattern (ui_url u) then 1 else 0)"
proof (cases "truthy_pattern (ui_url u)")
  case False
  then show ?thesis
    by (intro exI [of _ "[]"] exI [of _ st])
       (simp add: verifyUiExpectations_def Let_def selectors_of_def ret_def split: option.splits)
next
  case True
  from pattern_test_total [OF assms True, of "page_url drv w" st] obtain b st' where
    t: "pattern_test rt [] (the (ui_url u)) (page_url drv w) st = (Inr b, st')" by blast
  show ?thesis
    using True
    by (intro exI [of _ "[urlResult (the (ui_url u)) (page_url drv w) b]"] exI [of _ st'])
       (simp add: verifyUiExpectations_def Let_def selectors_of_def ret_def andThen_def t
         split: option.splits)
qed

text \<open>
  C9 (amended). For a UI expectation whose \<^verbatim>\<open>url\<close>, when it is a string, is a valid regular
  expression, \<open>verifyUiExpectations\<close> gives exactly one result for every selector under
  \<^verbatim>\<open>visible\<close> and under \<^verbatim>\<open>hidden\<close> (and one for \<^verbatim>\<open>url\<close>), in that order. For an element that
  is not on the page the \<^verbatim>\<open>visible\<close> result has \<^verbatim>\<open>passed: false\<close> and the \<^verbatim>\<open>hidden\<close> result
  has \<^verbatim>\<open>passed: true\<close>.
\<close>

theorem verifyUiExpectations_one_result_per_selector:
  assumes "pattern_compiles rt [] (ui_url u)"
  shows "\<exists>results st'. verifyUiExpectations drv rt w u st = (Inr results, st')
     \<and> length results = length (selectors_of (ui_visible u)) + length (selectors_of (ui_hidden u))
          + (if truthy_pattern (ui_url u) then 1 else 0)
     \<and> (\<forall>i<length (selectors_of (ui_visible u)).
           results ! i = checkVisible drv w (selectors_of (ui_visible u) ! i)
           \<and> (not_present drv w (selectors_of (ui_visible u) ! i) \<longrightarrow> \<not> passed (results ! i)))
     \<and> (\<forall>i<length (selectors_of (ui_hidden u)).
           results ! (length (selectors_of (ui_visible u)) + i)
             = checkHidden drv w (selectors_of (ui_hidden u) ! i)
           \<and> (not_present drv w (selectors_of (ui_hidden u) ! i)
                \<longrightarrow> passed (results ! (length (selectors_of (ui_visible u)) + i))))"
proof -
  let ?vs = "selectors_of (ui_visible u)" and ?hs = "selectors_of (ui_hidden u)"
  from verifyUi_shape [OF assms, of drv w st] obtain ur st' where
    r: "verifyUiExpectations drv rt w u st =
          (Inr (map (checkVisible drv w) ?vs @ map (checkHidden drv w) ?hs @ ur), st')"
    and l: "length ur = (if truthy_pattern (ui_url u) then 1 else 0)"
    by blast
  let ?rs = "map (checkVisible drv w) ?vs @ map (checkHidden drv w) ?hs @ ur"
  have v: "?rs ! i = checkVisible drv w (?vs ! i)" if "i < length ?vs" for i
    using that by (simp add: nth_append)
  have h: "?rs ! (length ?vs + i) = checkHidden drv w (?hs ! i)" if "i < length ?hs" for i
    using that by (simp add: nth_append)
  show ?thesis
    using r l v h
    by (intro exI [of _ ?rs] exI [of _ st'])
       (simp add: checkVisible_passed checkHidden_passed not_present_def)
qed

text \<open>
  Three selectors under each list: an element that is visible, one that is absent, and one
  for which \<^verbatim>\<open>isVisible\<close> raises.
\<close>

theorem verifyUiExpectations_one_result_per_selector_witness:
  "map passed (projr (fst (verifyUiExpectations wit_drv wit_rt ''http://example.com/''
                             wit_ui_expectation (\<lambda>_. 0))))
     = [True, False, False, True, False, True]
   \<and> not_present wit_drv ''http://example.com/'' ''#gone''
   \<and> not_present wit_drv ''http://example.com/'' ''#broken''"
proof -
  have ok: "pattern_compiles wit_rt [] (ui_url wit_ui_expectation)"
    by (simp add: pattern_compiles_def wit_ui_expectation_def)
  from verifyUiExpectations_one_result_per_selector [OF ok, of wit_drv "''http://example.com/''"
      "\<lambda>_. 0"]
  obtain results st' where
    r: "verifyUiExpectations wit_drv wit_rt ''http://example.com/'' wit_ui_expectation (\<lambda>_. 0)
          = (Inr results, st')"
    by blast
  have "results = map (checkVisible wit_drv ''http://example.com/'') [''#shown'', ''#gone'', ''#broken'']
      @ map (checkHidden wit_drv ''http://example.com/'') [''#gone'', ''#shown'', ''#broken'']"
    using r by (simp add: verifyUiExpectations_def wit_ui_expectation_def truthy_pattern_def ret_def)
  with r show ?thesis
    by (simp add: checkVisible_def checkHidden_def not_present_def wit_drv_def)
qed

text \<open>
  C9 as stated fails: with the string \<^verbatim>\<open>(\<close> as \<^verbatim>\<open>url\<close>, \<^verbatim>\<open>new RegExp\<close> raises after the two
  loops, and the call gives no result for any of the three selectors under \<^verbatim>\<open>visible\<close>.
\<close>

theorem verifyUiExpectations_invalid_url_counterexample:
  "isl (fst (verifyUiExpectations wit_drv wit_rt ''http://example.com/'' cx_ui_expectation
               (\<lambda>_. 0)))
   \<and> selectors_of (ui_visible cx_ui_expectation) = [''#shown'', ''#gone'', ''#broken'']
   \<and> \<not> RegExp_syntax_ok wit_rt ''('' []"
  by (simp add: verifyUiExpectations_def cx_ui_expectation_def wit_ui_expectation_def
      truthy_pattern_def pattern_test_def wit_rt_def andThen_def selectors_of_def Let_def)




definition uiResults :: "'w driver \<Rightarrow> js_runtime \<Rightarrow> 'w \<Rightarrow> UiExpectation \<Rightarrow> VerificationResult list" where
  "uiResults drv rt w u =
     map (checkVisible drv w) (selectors_of (ui_visible u))
     @ map (checkHidden drv w) (selectors_of (ui_hidden u))
     @ (if truthy_pattern (ui_url u)
        then [urlResult (the (ui_url u)) (page_url drv w)
                (matches rt [] (the (ui_url u)) (page_url drv w))]
        else [])"










section \<open>Verification: tasks and actions\<close>

text \<open>
  C3. When the page opens and the state captured after the navigation and the replay is
  already in the visited set, the task is discarded: \<open>exploreTask\<close> leaves the graph (its
  nodes and issues), the visited set, the queue, the event log and the console errors as
  they were. What remains is the session after opening the page, navigating and closing
  the page: no screenshot, no validator, no discovery and no action was run on it.
\<close>

theorem exploreTask_visited_state_discarded:
  assumes "has_context s"
    and "page_op drv NewPage (world s) = (Inr (), w0)"
    and "navigate drv cfg task w0 = (Inr state, w1)"
    and "set_has (visited s) (state_id state)"
  shows "exploreTask drv rt cfg task s =
           (fst (page_op drv PageClose w1), s\<lparr>world := snd (page_op drv PageClose w1)\<rparr>)"
  using assms
  by (cases "page_op drv PageClose w1"; cases "fst (page_op drv PageClose w1)")
     (simp_all add: exploreTask_def andThen_def tryFinally_def tryCatch_def inWorld_def)

text \<open>The start page again, when it is already visited.\<close>

theorem exploreTask_visited_state_discarded_witness:
  "exploreTask wit_drv wit_rt wit_config wit_task wit_explorer = (Inr (), wit_explorer)
   \<and> set_has (visited wit_explorer) (state_id (wit_state wit_base Desktop))"
proof -
  have c: "has_context wit_explorer" by (simp add: wit_explorer_def)
  have w: "world wit_explorer = wit_base" by (simp add: wit_explorer_def newExplorer_def)
  have np: "page_op wit_drv NewPage (world wit_explorer) = (Inr (), wit_base)"
    by (simp add: w wit_drv_def wit_page_op_def)
  have nav: "navigate wit_drv wit_config wit_task wit_base = (Inr (wit_state wit_base Desktop), wit_base)"
    by (simp add: navigate_def wit_drv_def wit_page_op_def wit_task_def andThen_def ret_def)
  have seen: "set_has (visited wit_explorer) (state_id (wit_state wit_base Desktop))"
    by (simp add: wit_explorer_def set_has_def wit_state_def)
  have cl: "page_op wit_drv PageClose wit_base = (Inr (), wit_base)"
    by (simp add: wit_drv_def wit_page_op_def)
  have "wit_explorer\<lparr>world := wit_base\<rparr> = wit_explorer"
    by (simp add: wit_explorer_def newExplorer_def)
  with exploreTask_visited_state_discarded [OF c np nav seen, of wit_rt] seen cl
  show ?thesis by simp
qed

lemma exploreAction_returns: "fst (exploreAction drv rt cfg fromSt action task s) = Inr ()"
  using exploreAction_total [of drv rt cfg fromSt action task s] by auto

lemma attemptAction_world_only:
  "\<exists>w st. snd (attemptAction drv rt cfg action task s) = s\<lparr>world := w, lastIndex := st\<rparr>"
proof -
  let ?I = "\<lambda>x. \<exists>w st. x = s\<lparr>world := w, lastIndex := st\<rparr>"
  have wf: "world_free ?I"
    unfolding world_free_def
  proof (intro allI impI)
    fix x w' assume "?I x"
    then obtain w st where "x = s\<lparr>world := w, lastIndex := st\<rparr>" by blast
    then have "x\<lparr>world := w'\<rparr> = s\<lparr>world := w', lastIndex := st\<rparr>" by simp
    then show "?I (x\<lparr>world := w'\<rparr>)" by blast
  qed
  have rf: "regexp_free ?I"
    unfolding regexp_free_def
  proof (intro allI impI)
    fix x st' assume "?I x"
    then obtain w st where "x = s\<lparr>world := w, lastIndex := st\<rparr>" by blast
    then have "x\<lparr>lastIndex := st'\<rparr> = s\<lparr>world := w, lastIndex := st'\<rparr>" by simp
    then show "?I (x\<lparr>lastIndex := st'\<rparr>)" by blast
  qed
  have "?I s" by (intro exI [of _ "world s"] exI [of _ "lastIndex s"]) simp
  then show ?thesis
    using keepsD [OF keeps_attemptAction [OF wf rf], of s drv rt cfg action task] by blast
qed

lemma andThen_Inr: "m s = (Inr a, s') \<Longrightarrow> andThen m f s = f a s'"
  by (simp add: andThen_def)

lemma emit_eq: "emit ev s = (Inr (), s\<lparr>events := events s @ [ev]\<rparr>)"
  by (simp add: emit_def modify_def)

lemma recovery_state:
  "snd (tryCatch (backtrack drv cfg task) (\<lambda>_. ret ()) x)
     = x\<lparr>world := snd (tryCatch (andThen (page_op drv (Goto (task_url task) None Load))
                        (\<lambda>_. replayPath drv cfg (path task))) (\<lambda>_. ret ()) (world x))\<rparr>"
proof -
  obtain r w where g: "page_op drv (Goto (task_url task) None Load) (world x) = (r, w)"
    by (cases "page_op drv (Goto (task_url task) None Load) (world x)")
  obtain r' w' where p: "replayPath drv cfg (path task) w = (r', w')"
    by (cases "replayPath drv cfg (path task) w")
  show ?thesis
    by (cases r; cases r')
       (simp_all add: backtrack_def tryCatch_def andThen_def inWorld_def ret_def g p)
qed

lemma exploreAction_on_failure:
  assumes "attemptAction drv rt cfg action task
      (s\<lparr>events := events s @ [EvActionStart action (state_id fromSt)]\<rparr>) = (Inl e, s1)"
  shows "exploreAction drv rt cfg fromSt action task s =
      tryCatch (backtrack drv cfg task) (\<lambda>_. ret ())
        (s1\<lparr>events := events s1 @ [EvActionError action e]\<rparr>)"
proof -
  have "exploreAction drv rt cfg fromSt action task s =
      tryCatch
       (andThen (attemptAction drv rt cfg action task) (\<lambda>(toSt, verifs).
          recordAction drv cfg fromSt action task toSt verifs))
       (\<lambda>err.
          andThen (emit (EvActionError action err)) (\<lambda>_.
          tryCatch (backtrack drv cfg task) (\<lambda>_. ret ())))
       (s\<lparr>events := events s @ [EvActionStart action (state_id fromSt)]\<rparr>)"
    by (simp add: exploreAction_def andThen_Inr [OF emit_eq])
  also have "\<dots> = tryCatch (backtrack drv cfg task) (\<lambda>_. ret ())
        (s1\<lparr>events := events s1 @ [EvActionError action e]\<rparr>)"
    by (simp add: tryCatch_def andThen_def assms emit_eq)
  finally show ?thesis .
qed

text \<open>
  C2 (amended). \<open>exploreAction\<close> never rejects, so the loop over the candidate actions goes
  on with the next one. When the attempt (schema matching, setup, the action itself, the
  capture of the post-state or the verification) raises, the error is emitted as an
  \<^verbatim>\<open>action:error\<close> event, no transition is recorded (graph, visited set and queue stay as
  they were), and the recovery is run: go back to the task's URL and replay its path, a
  failure of which is swallowed.
\<close>

theorem exploreAction_failure_is_handled:
  "fst (exploreAction drv rt cfg fromSt action task s) = Inr ()
   \<and> exploreActions drv rt cfg fromSt task (action # rest) s =
       exploreActions drv rt cfg fromSt task rest
         (snd (exploreAction drv rt cfg fromSt action task s))
   \<and> (\<forall>e s1.
        attemptAction drv rt cfg action task
          (s\<lparr>events := events s @ [EvActionStart action (state_id fromSt)]\<rparr>) = (Inl e, s1)
        \<longrightarrow> graph (snd (exploreAction drv rt cfg fromSt action task s)) = graph s
          \<and> visited (snd (exploreAction drv rt cfg fromSt action task s)) = visited s
          \<and> queue (snd (exploreAction drv rt cfg fromSt action task s)) = queue s
          \<and> events (snd (exploreAction drv rt cfg fromSt action task s)) =
              events s @ [EvActionStart action (state_id fromSt), EvActionError action e]
          \<and> world (snd (exploreAction drv rt cfg fromSt action task s)) =
              snd (tryCatch
                     (andThen (page_op drv (Goto (task_url task) None Load))
                        (\<lambda>_. replayPath drv cfg (path task)))
                     (\<lambda>_. ret ()) (world s1)))"
proof (intro conjI allI impI)
  show r: "fst (exploreAction drv rt cfg fromSt action task s) = Inr ()"
    by (rule exploreAction_returns)
  show "exploreActions drv rt cfg fromSt task (action # rest) s =
       exploreActions drv rt cfg fromSt task rest
         (snd (exploreAction drv rt cfg fromSt action task s))"
    using r by (cases "exploreAction drv rt cfg fromSt action task s") (simp add: andThen_def)
next
  fix e s1
  let ?s0 = "s\<lparr>events := events s @ [EvActionStart action (state_id fromSt)]\<rparr>"
  assume a: "attemptAction drv rt cfg action task ?s0 = (Inl e, s1)"
  from attemptAction_world_only [of drv rt cfg action task ?s0] a
  obtain w st where s1: "s1 = ?s0\<lparr>world := w, lastIndex := st\<rparr>" by auto
  let ?s2 = "s1\<lparr>events := events s1 @ [EvActionError action e]\<rparr>"
  let ?rec = "tryCatch (andThen (page_op drv (Goto (task_url task) None Load))
                        (\<lambda>_. replayPath drv cfg (path task))) (\<lambda>_. ret ())"
  have ex: "snd (exploreAction drv rt cfg fromSt action task s)
      = ?s2\<lparr>world := snd (?rec (world ?s2))\<rparr>"
    by (simp only: exploreAction_on_failure [OF a] recovery_state)
  show "graph (snd (exploreAction drv rt cfg fromSt action task s)) = graph s"
    unfolding ex by (simp add: s1)
  show "visited (snd (exploreAction drv rt cfg fromSt action task s)) = visited s"
    unfolding ex by (simp add: s1)
  show "queue (snd (exploreAction drv rt cfg fromSt action task s)) = queue s"
    unfolding ex by (simp add: s1)
  show "events (snd (exploreAction drv rt cfg fromSt action task s)) =
              events s @ [EvActionStart action (state_id fromSt), EvActionError action e]"
    unfolding ex by (simp add: s1)
  show "world (snd (exploreAction drv rt cfg fromSt action task s)) = snd (?rec (world s1))"
    unfolding ex by simp
qed

text \<open>On the start page of the sample site, the click on \<^verbatim>\<open>#missing\<close> raises.\<close>

lemma wit_attempt_missing:
  "attemptAction wit_drv wit_rt wit_config (wit_click ''#missing'') wit_task
     (wit_explorer\<lparr>events := events wit_explorer
        @ [EvActionStart (wit_click ''#missing'') (state_id (wit_state wit_base Desktop))]\<rparr>)
   = (Inl wit_error, wit_explorer\<lparr>events := events wit_explorer
        @ [EvActionStart (wit_click ''#missing'') (state_id (wit_state wit_base Desktop))]\<rparr>)"
  by (simp add: attemptAction_def andThen_def findMatchingSchema_def wit_config_def
      wit_schemas_def wit_schema_def wit_matcher_def wit_click_def truthy_str_def
      truthy_pattern_def inRegExps_def
      inWorld_def wit_drv_def wit_explorer_def newExplorer_def executeAction_def Let_def
      wit_page_op_def wit_exploration_def whenDo_def whenNum_def truthy_bool_def ret_def
      num_or_def truthy_num_def wit_base_def)

theorem exploreAction_failure_is_handled_witness:
  "fst (exploreAction wit_drv wit_rt wit_config (wit_state wit_base Desktop)
          (wit_click ''#missing'') wit_task wit_explorer) = Inr ()
   \<and> fst (attemptAction wit_drv wit_rt wit_config (wit_click ''#missing'') wit_task
        (wit_explorer\<lparr>events := events wit_explorer
           @ [EvActionStart (wit_click ''#missing'') (state_id (wit_state wit_base Desktop))]\<rparr>))
       = Inl wit_error
   \<and> events (snd (exploreAction wit_drv wit_rt wit_config (wit_state wit_base Desktop)
          (wit_click ''#missing'') wit_task wit_explorer))
       = [EvActionStart (wit_click ''#missing'') wit_base,
          EvActionError (wit_click ''#missing'') wit_error]"
  using exploreAction_failure_is_handled [of wit_drv wit_rt wit_config
      "wit_state wit_base Desktop" "wit_click ''#missing''" wit_task wit_explorer "[]"]
    wit_attempt_missing
  by (simp add: wit_explorer_def newExplorer_def wit_state_def)

text \<open>
  C2 as stated fails: after the failed action the node of the state has no transition, so
  the error is on no transition of the graph.
\<close>

theorem exploreAction_failure_counterexample:
  "fst (attemptAction wit_drv wit_rt wit_config (wit_click ''#missing'') wit_task
        (wit_explorer\<lparr>events := events wit_explorer
           @ [EvActionStart (wit_click ''#missing'') (state_id (wit_state wit_base Desktop))]\<rparr>))
       = Inl wit_error
   \<and> states (graph (snd (exploreAction wit_drv wit_rt wit_config (wit_state wit_base Desktop)
          (wit_click ''#missing'') wit_task wit_explorer)))
       = [(wit_base, \<lparr>node_state = wit_state wit_base Desktop, node_issues = [],
                       transitions = []\<rparr>)]"
proof -
  have "snd (exploreAction wit_drv wit_rt wit_config (wit_state wit_base Desktop)
          (wit_click ''#missing'') wit_task wit_explorer)
      = wit_explorer\<lparr>events := [EvActionStart (wit_click ''#missing'') wit_base,
          EvActionError (wit_click ''#missing'') wit_error]\<rparr>"
    unfolding exploreAction_on_failure [OF wit_attempt_missing] recovery_state
    by (simp add: wit_explorer_def newExplorer_def wit_state_def wit_drv_def wit_page_op_def
        wit_task_def wit_base_def tryCatch_def andThen_def ret_def)
  then show ?thesis
    using wit_attempt_missing by (simp add: wit_explorer_def)
qed


section \<open>Verification: the crawl\<close>

subsection \<open>Properties the loop keeps\<close>

lemma explore_loop_keeps_aux:
  "(\<And>s task rest. I s \<Longrightarrow> queue s = task # rest \<Longrightarrow>
      I (snd (loopBody drv rt cfg task (s\<lparr>queue := rest\<rparr>))))
   \<Longrightarrow> I s \<Longrightarrow> I (snd (explore_loop drv rt cfg s))"
proof (induction drv rt cfg s rule: explore_loop.induct)
  case (1 drv rt cfg s)
  note step = "1.prems"(1)
  show ?case
  proof (cases "queue s")
    case Nil
    with "1.prems"(2) show ?thesis by (simp add: explore_loop.simps)
  next
    case (Cons task rest)
    obtain out s' where lb: "loopBody drv rt cfg task (s\<lparr>queue := rest\<rparr>) = (out, s')"
      by (cases "loopBody drv rt cfg task (s\<lparr>queue := rest\<rparr>)")
    from step [OF "1.prems"(2) Cons] lb have I': "I s'" by simp
    show ?thesis
    proof (cases out)
      case Continue
      from "1.IH" [OF Cons lb [symmetric] Continue step I']
      show ?thesis using Cons lb Continue by (simp add: explore_loop.simps [of drv rt cfg s])
    next
      case Break
      with Cons lb I' show ?thesis by (simp add: explore_loop.simps [of drv rt cfg s])
    next
      case (Raised e)
      with Cons lb I' show ?thesis by (simp add: explore_loop.simps [of drv rt cfg s])
    qed
  qed
qed

lemma explore_loop_keeps:
  assumes "\<And>s task rest. I s \<Longrightarrow> queue s = task # rest \<Longrightarrow>
      I (snd (loopBody drv rt cfg task (s\<lparr>queue := rest\<rparr>)))"
  shows "I s \<Longrightarrow> I (snd (explore_loop drv rt cfg s))"
  using assms by (rule explore_loop_keeps_aux)

text \<open>What one pass of the loop does, in terms of what the task did.\<close>

lemma loopBody_cases:
  obtains (skip) "snd (loopBody drv rt cfg task s) = s"
  | (task) s2 evs where "depth task \<le> maxDepthLimit cfg"
      "length (visited s) < maxStatesLimit cfg"
      "task_post (s\<lparr>processed := processed s @ [task]\<rparr>) s2"
      "snd (loopBody drv rt cfg task s) = s2\<lparr>events := evs\<rparr>"
proof (cases "depth task > maxDepthLimit cfg \<or> length (visited s) \<ge> maxStatesLimit cfg")
  case True
  then have "snd (loopBody drv rt cfg task s) = s" by (auto simp: loopBody_def)
  then show ?thesis by (rule skip)
next
  case False
  let ?s1 = "s\<lparr>processed := processed s @ [task]\<rparr>"
  obtain r s2 where e: "exploreTask drv rt cfg task ?s1 = (r, s2)"
    by (cases "exploreTask drv rt cfg task ?s1")
  from exploreTask_post [of ?s1 drv rt cfg task] e have tp: "task_post ?s1 s2" by simp
  have "\<exists>evs. snd (loopBody drv rt cfg task s) = s2\<lparr>events := evs\<rparr>"
  proof (cases r)
    case (Inl x)
    with False e have "snd (loopBody drv rt cfg task s) = s2\<lparr>events := events s2\<rparr>"
      by (simp add: loopBody_def)
    then show ?thesis by blast
  next
    case (Inr u)
    with False e show ?thesis
      by (simp add: loopBody_def emit_def modify_def) (rule exI, rule refl)
  qed
  then obtain evs where "snd (loopBody drv rt cfg task s) = s2\<lparr>events := evs\<rparr>" by blast
  with False tp show ?thesis by (intro task) auto
qed

subsection \<open>The caps\<close>

definition within_caps :: "ExplorerConfig \<Rightarrow> 'w Explorer \<Rightarrow> bool" where
  "within_caps cfg s =
     (length (visited s) \<le> maxStatesLimit cfg
      \<and> (\<forall>t\<in>set (processed s). depth t \<le> maxDepthLimit cfg))"

lemma within_caps_loopBody:
  assumes "within_caps cfg s"
  shows "within_caps cfg (snd (loopBody drv rt cfg task (s\<lparr>queue := rest\<rparr>)))"
proof (cases rule: loopBody_cases [of drv rt cfg task "s\<lparr>queue := rest\<rparr>"])
  case skip
  with assms show ?thesis by (simp add: within_caps_def)
next
  case (task s2 evs)
  from task(3) have "processed s2 = processed s @ [task]"
    and "visited s2 = visited s \<or> length (visited s2) = Suc (length (visited s))"
    by (auto simp: task_post_def marked_def added_def)
  with task(1,2,4) assms show ?thesis by (auto simp: within_caps_def)
qed

lemma within_caps_explore_loop:
  "within_caps cfg s \<Longrightarrow> within_caps cfg (snd (explore_loop drv rt cfg s))"
  by (rule explore_loop_keeps [where I = "within_caps cfg"]) (rule within_caps_loopBody)

lemma keeps_cond:
  "keeps I m \<Longrightarrow> keeps I n \<Longrightarrow> keeps I (\<lambda>s. if c s then m s else n s)"
  by (simp add: keeps_def)

text \<open>
  \<^verbatim>\<open>explore\<close> keeps every property that its loop keeps and that does not depend on the
  session, the event log, the queue and the two handles.
\<close>

definition crawl_only :: "('w Explorer \<Rightarrow> bool) \<Rightarrow> bool" where
  "crawl_only I =
     (\<forall>s w evs q c b. I s \<longrightarrow>
        I (s\<lparr>world := w\<rparr>) \<and> I (s\<lparr>events := evs\<rparr>) \<and> I (s\<lparr>queue := q\<rparr>)
        \<and> I (s\<lparr>has_context := c\<rparr>) \<and> I (s\<lparr>has_browser := b\<rparr>))"

lemma keeps_explore:
  assumes co: "crawl_only I" and loop: "keeps I (explore_loop drv rt cfg)"
  shows "keeps I (explore drv rt cfg)"
proof -
  have sf: "session_free I" and wf: "world_free I"
    using co by (auto simp: crawl_only_def session_free_def world_free_def)
  have m1: "keeps I (modify (\<lambda>s. s\<lparr>has_browser := b\<rparr>))" for b
    using co by (intro keeps_modify) (simp add: crawl_only_def)
  have m2: "keeps I (modify (\<lambda>s. s\<lparr>has_context := b\<rparr>))" for b
    using co by (intro keeps_modify) (simp add: crawl_only_def)
  have m3: "keeps I (modify (\<lambda>s. s\<lparr>queue := queue s @ startTasks cfg\<rparr>))"
    using co by (intro keeps_modify) (simp add: crawl_only_def)
  have init: "keeps I (initialize drv cfg)"
    unfolding initialize_def
    by (intro keeps_andThen keeps_inWorld keeps_whenDo wf m1 m2)
  have refl: "keeps I (\<lambda>s. (Inr (), s))" by (simp add: keeps_def)
  have clean: "keeps I (cleanup drv)"
    unfolding cleanup_def
    by (intro keeps_andThen keeps_inWorld keeps_cond wf m1 m2 refl)
  show ?thesis
    unfolding explore_def
    by (intro keeps_andThen keeps_tryFinally keeps_tryCatch keeps_emit keeps_raise keeps_ret
        keeps_pure sf init m3 loop clean)
qed

lemma crawl_only_within_caps: "crawl_only (within_caps cfg)"
  by (simp add: crawl_only_def within_caps_def)

text \<open>
  In every run of \<open>explore\<close>, every task handed to \<open>exploreTask\<close> has a depth of at most
  the depth limit the loop compares with, and the visited set (which only grows) has at most
  as many entries as the state limit it compares with; every pass of the main loop keeps
  both bounds.
\<close>

lemma explore_within_limits:
  "length (visited (snd (explore drv rt cfg (newExplorer w)))) \<le> maxStatesLimit cfg
   \<and> (\<forall>t\<in>set (processed (snd (explore drv rt cfg (newExplorer w)))).
         depth t \<le> maxDepthLimit cfg)
   \<and> (\<forall>s task rest. within_caps cfg s \<longrightarrow>
         within_caps cfg (snd (loopBody drv rt cfg task (s\<lparr>queue := rest\<rparr>))))"
proof -
  have "keeps (within_caps cfg) (explore_loop drv rt cfg)"
    by (simp add: keeps_def within_caps_explore_loop)
  from keeps_explore [OF crawl_only_within_caps this]
  have "within_caps cfg (snd (explore drv rt cfg (newExplorer w)))"
    by (rule keepsD) (simp add: within_caps_def newExplorer_def)
  then have "length (visited (snd (explore drv rt cfg (newExplorer w)))) \<le> maxStatesLimit cfg"
    and "\<forall>t\<in>set (processed (snd (explore drv rt cfg (newExplorer w)))).
         depth t \<le> maxDepthLimit cfg"
    by (simp_all add: within_caps_def)
  moreover have "\<forall>s task rest. within_caps cfg s \<longrightarrow>
         within_caps cfg (snd (loopBody drv rt cfg task (s\<lparr>queue := rest\<rparr>)))"
    by (simp add: within_caps_loopBody)
  ultimately show ?thesis by blast
qed

text \<open>
  The limits the loop compares with are the configured ones when these are at least 1. So
  for every \<^verbatim>\<open>maxDepth\<close> and \<^verbatim>\<open>maxStates\<close> of at least 1 no task deeper than \<^verbatim>\<open>maxDepth\<close> is
  processed and the visited set never has more than \<^verbatim>\<open>maxStates\<close> entries.
\<close>

lemma limits_configured:
  "maxDepth (exploration cfg) = Some d \<Longrightarrow> 0 < d \<Longrightarrow> maxDepthLimit cfg = d"
  "maxStates (exploration cfg) = Some n \<Longrightarrow> 0 < n \<Longrightarrow> maxStatesLimit cfg = n"
  by (simp_all add: maxDepthLimit_def maxStatesLimit_def num_or_def truthy_num_def)

lemma explore_within_configured_caps:
  assumes "maxDepth (exploration cfg) = Some d" and "0 < d"
    and "maxStates (exploration cfg) = Some n" and "0 < n"
  shows "length (visited (snd (explore drv rt cfg (newExplorer w)))) \<le> n
   \<and> (\<forall>t\<in>set (processed (snd (explore drv rt cfg (newExplorer w)))). depth t \<le> d)"
  using explore_within_limits [of drv rt cfg w] limits_configured(1) [OF assms(1,2)]
    limits_configured(2) [OF assms(3,4)]
  by simp

text \<open>
  C4. No task whose depth exceeds \<^verbatim>\<open>maxDepth\<close> is processed: this fails for the configured
  \<^verbatim>\<open>maxDepth: 0\<close>. The loop compares the depth with \<^verbatim>\<open>maxDepth || 10\<close>, which is 10 for a
  configured 0, so on the sample site the task of depth 1 that the start page queues is
  handed to \<open>exploreTask\<close>, after the start task of depth 0.
\<close>

theorem explore_maxDepth_zero_processes_depth_one:
  "maxDepth (exploration cx_config) = Some 0
   \<and> map depth (processed (snd (explore wit_drv wit_rt cx_config (newExplorer wit_base))))
       = [0, 1]"
  by code_simp

subsection \<open>The start states\<close>

definition graph_inv :: "'w Explorer \<Rightarrow> bool" where
  "graph_inv s =
     (set (keys s) \<subseteq> set (visited s) \<and> startStates (graph s) = take 1 (keys s))"

lemma graph_inv_task:
  assumes "graph_inv s0" and "task_post s0 s"
  shows "graph_inv s \<and> prefix (keys s0) (keys s)"
proof -
  from assms(2) consider (same) w where "s = s0\<lparr>world := w\<rparr>"
    | (marked) sid where "\<not> set_has (visited s0) sid" "marked s0 sid s"
    | (added) sid where "\<not> set_has (visited s0) sid" "added s0 sid s"
    unfolding task_post_def by blast
  then show ?thesis
  proof cases
    case same
    with assms(1) show ?thesis by (simp add: graph_inv_def keys_def)
  next
    case marked
    with assms(1) show ?thesis by (auto simp: graph_inv_def keys_def marked_def)
  next
    case added
    from added(1) assms(1) have "sid \<notin> set (keys s0)"
      by (auto simp: graph_inv_def set_has_def)
    then have k: "set_add sid (keys s0) = keys s0 @ [sid]"
      by (simp add: set_add_def set_has_def)
    from added(2) have v: "visited s = visited s0 @ [sid]" and ks: "keys s = keys s0 @ [sid]"
      and st: "startStates (graph s) =
          (if length (keys s0 @ [sid]) = 1 then startStates (graph s0) @ [sid]
           else startStates (graph s0))"
      by (simp_all add: added_def k)
    from assms(1) have s0: "startStates (graph s0) = take 1 (keys s0)"
      and sub: "set (keys s0) \<subseteq> set (visited s0)"
      by (simp_all add: graph_inv_def)
    have "startStates (graph s) = take 1 (keys s)"
      unfolding st ks s0 by (cases "keys s0") simp_all
    with sub v ks show ?thesis by (auto simp: graph_inv_def)
  qed
qed

lemma graph_inv_loopBody:
  assumes "graph_inv s"
  shows "graph_inv (snd (loopBody drv rt cfg task (s\<lparr>queue := rest\<rparr>)))"
proof (cases rule: loopBody_cases [of drv rt cfg task "s\<lparr>queue := rest\<rparr>"])
  case skip
  with assms show ?thesis by (simp add: graph_inv_def keys_def)
next
  case (task s2 evs)
  have "graph_inv (s\<lparr>queue := rest, processed := processed (s\<lparr>queue := rest\<rparr>) @ [task]\<rparr>)"
    using assms by (simp add: graph_inv_def keys_def)
  from graph_inv_task [OF this task(3)] have "graph_inv s2" by simp
  with task(4) show ?thesis by (simp add: graph_inv_def keys_def)
qed

lemma crawl_only_graph_inv: "crawl_only graph_inv"
  by (simp add: crawl_only_def graph_inv_def keys_def)

text \<open>
  C10. After every run of \<open>explore\<close>, whatever the start URLs and viewports, \<^verbatim>\<open>startStates\<close>
  is the list of the first key of the graph's \<^verbatim>\<open>states\<close>: empty when no state was added,
  and else the id of the first state added, alone. Every task keeps this, so the list has
  at most one entry at any time, and once a state is in the graph it does not change.
\<close>

theorem startStates_holds_first_state_only:
  "startStates (graph (snd (explore drv rt cfg (newExplorer w))))
     = take 1 (map fst (states (graph (snd (explore drv rt cfg (newExplorer w))))))
   \<and> (\<forall>s task. graph_inv s \<longrightarrow>
         graph_inv (snd (exploreTask drv rt cfg task s))
         \<and> length (startStates (graph (snd (exploreTask drv rt cfg task s)))) \<le> 1
         \<and> (states (graph s) \<noteq> [] \<longrightarrow>
              startStates (graph (snd (exploreTask drv rt cfg task s))) = startStates (graph s)))"
proof (intro conjI allI impI)
  have "keeps graph_inv (explore_loop drv rt cfg)"
    unfolding keeps_def
    by (intro allI impI, rule explore_loop_keeps [where I = graph_inv]) (rule graph_inv_loopBody)
  from keeps_explore [OF crawl_only_graph_inv this]
  have "graph_inv (snd (explore drv rt cfg (newExplorer w)))"
    by (rule keepsD) (simp add: graph_inv_def newExplorer_def keys_def)
  then show "startStates (graph (snd (explore drv rt cfg (newExplorer w))))
     = take 1 (map fst (states (graph (snd (explore drv rt cfg (newExplorer w))))))"
    by (simp add: graph_inv_def keys_def)
next
  fix s :: "'a Explorer" and task
  assume g: "graph_inv s"
  let ?s' = "snd (exploreTask drv rt cfg task s)"
  from graph_inv_task [OF g exploreTask_post [of s drv rt cfg task]]
  have g': "graph_inv ?s'" and p: "prefix (keys s) (keys ?s')" by simp_all
  show "graph_inv ?s'" by (rule g')
  from g' show "length (startStates (graph ?s')) \<le> 1" by (simp add: graph_inv_def)
  assume "states (graph s) \<noteq> []"
  then have "keys s \<noteq> []" by (simp add: keys_def)
  with p have "take 1 (keys ?s') = take 1 (keys s)"
    by (cases "keys s") (auto simp: prefix_def)
  with g g' show "startStates (graph ?s') = startStates (graph s)" by (simp add: graph_inv_def)
qed


text \<open>A task on the sample Explorer, whose graph holds the start page.\<close>

theorem startStates_holds_first_state_only_witness:
  "graph_inv wit_explorer \<and> states (graph wit_explorer) \<noteq> []
   \<and> graph_inv (snd (exploreTask wit_drv wit_rt wit_config wit_task wit_explorer))
   \<and> startStates (graph (snd (exploreTask wit_drv wit_rt wit_config wit_task wit_explorer)))
       = [wit_base]"
proof -
  have g: "graph_inv wit_explorer"
    by (simp add: graph_inv_def keys_def wit_explorer_def newExplorer_def)
  have n: "states (graph wit_explorer) \<noteq> []" by (simp add: wit_explorer_def)
  have st: "startStates (graph wit_explorer) = [wit_base]" by (simp add: wit_explorer_def)
  from startStates_holds_first_state_only [of wit_drv wit_rt wit_config wit_base] g n st
  show ?thesis by simp
qed

subsection \<open>Termination and the end of the loop\<close>














end
